theory Spec2Isabelle
  imports Main
begin

section \<open>Values, exceptions and queues\<close>

text \<open>
  The runner of \<^verbatim>\<open>aardvark/retrievers/runner.py\<close> moves three kinds of items through
  four \<^verbatim>\<open>asyncio.Queue\<close>s: account numbers, ARNs and the dictionaries the retriever
  plugins build. Python values that can sit in such a dictionary are strings, integers
  and lists; a list is the one kind that cannot be used as a dictionary key.
\<close>

datatype val = VStr string | VInt int | VList "val list"

type_synonym data = "string \<rightharpoonup> val"

fun hashable :: "val \<Rightarrow> bool" where
  "hashable (VList _) = False"
| "hashable _ = True"

text \<open>
  Exceptions are values. Every constructor is a subclass of Python's \<^verbatim>\<open>Exception\<close>, so
  each of them is caught by the \<^verbatim>\<open>except Exception\<close> clauses of the worker loops.
  \<open>RetrieverException msg cause\<close> carries the message and the \<^verbatim>\<open>__cause__\<close> set by
  \<^verbatim>\<open>raise ... from e\<close>.
\<close>

datatype exn =
    KeyError string
  | TypeError
  | ValueError
  | InvalidSWAGDataException
  | ClientError
  | OtherError string
  | RetrieverException "string option" "exn option"

text \<open>
  An \<^verbatim>\<open>asyncio.Queue\<close> without a size bound: the pending items in arrival order and the
  counter of unfinished tasks, which \<^verbatim>\<open>put\<close> increments and \<^verbatim>\<open>task_done\<close> decrements.
  \<^verbatim>\<open>get\<close> on an empty queue suspends the caller (\<open>None\<close>); \<^verbatim>\<open>task_done\<close> called more
  often than \<^verbatim>\<open>put\<close> raises \<^verbatim>\<open>ValueError\<close>; \<^verbatim>\<open>join\<close> lets the caller pass once the
  counter is zero.
\<close>

record 'a queue =
  items :: "'a list"
  unfinished :: nat

definition Queue :: "'a queue" where
  "Queue = \<lparr>items = [], unfinished = 0\<rparr>"

definition q_put :: "'a queue \<Rightarrow> 'a \<Rightarrow> 'a queue" where
  "q_put q x = q\<lparr>items := items q @ [x], unfinished := Suc (unfinished q)\<rparr>"

definition q_get :: "'a queue \<Rightarrow> ('a \<times> 'a queue) option" where
  "q_get q = (case items q of [] \<Rightarrow> None | x # xs \<Rightarrow> Some (x, q\<lparr>items := xs\<rparr>))"

definition q_task_done :: "'a queue \<Rightarrow> exn + 'a queue" where
  "q_task_done q =
     (if unfinished q = 0 then Inl ValueError
      else Inr (q\<lparr>unfinished := unfinished q - 1\<rparr>))"

definition q_empty :: "'a queue \<Rightarrow> bool" where
  "q_empty q = (items q = [])"

definition q_joined :: "'a queue \<Rightarrow> bool" where
  "q_joined q = (unfinished q = 0)"

section \<open>Collaborators\<close>

text \<open>
  A SWAG account is a dictionary; the runner reads the keys \<^verbatim>\<open>id\<close>, \<^verbatim>\<open>name\<close>,
  \<^verbatim>\<open>schemaVersion\<close> and, depending on the schema version, \<^verbatim>\<open>aliases\<close> or \<^verbatim>\<open>alias\<close>.
  A key that is absent is \<open>None\<close>.
\<close>

record account =
  acc_id :: "string option"
  acc_name :: "string option"
  schemaVersion :: "string option"
  acc_aliases :: "string list option"
  acc_alias :: "string list option"

type_synonym entity = "string \<rightharpoonup> string"
type_synonym page = "string \<rightharpoonup> entity list"
type_synonym role_data = "(val \<times> val) list"
type_synonym retriever = "string \<Rightarrow> data \<Rightarrow> exn + data"

text \<open>
  The calls the runner makes outside itself, each returning its result or the exception
  it raises. A paginator is lazy: the call returns an iterator, and every page fetched
  from it may raise in turn. The connection parameters other than the account number
  are fixed by the configuration.
\<close>

record env =
  swag_get_all :: "string \<Rightarrow> exn + account list"
  swag_get_service_enabled :: "string \<Rightarrow> account list \<Rightarrow> exn + account list"
  boto3_cached_conn :: "string \<Rightarrow> exn option"
  list_roles :: "string \<Rightarrow> exn + entity list"
  list_users :: "string \<Rightarrow> exn + entity list"
  list_policies :: "string \<Rightarrow> exn + (exn + page) list"
  list_groups :: "string \<Rightarrow> exn + (exn + page) list"
  store_role_data :: "role_data \<Rightarrow> exn option"

section \<open>The runner and its tasks\<close>

datatype kind = ArnLookup | Retriever | Results

datatype stage = Conn | Roles | Users | Policies | Groups

text \<open>
  Where a worker coroutine stands: suspended in \<^verbatim>\<open>get\<close> at the head of its loop
  (\<open>Waiting\<close>), suspended in an external call of the loop body, or finished because it
  was cancelled or an exception left the loop.
\<close>

datatype status =
    Waiting
  | Looking string stage
  | Retrieving string
  | Storing role_data data
  | Cancelled
  | Crashed exn

record task =
  kind :: kind
  index :: nat
  status :: status
  cancel_req :: bool

datatype fitem = FStr string | FData data

text \<open>Where the coroutine \<^verbatim>\<open>run\<close> stands.\<close>

datatype phase =
    Idle
  | JoinAccounts
  | JoinArns
  | JoinResults
  | Cleanup
  | Gather
  | Returned
  | Raised exn

text \<open>
  The attributes of \<^verbatim>\<open>RetrieverRunner\<close>. \<open>persistence\<close> is the storage object seen from
  the runner: the mappings passed to \<^verbatim>\<open>store_role_data\<close>, in call order. The last two
  fields are not attributes: the position of \<^verbatim>\<open>run\<close> and the items it has written to
  the log as \<^verbatim>\<open>"failure: %s"\<close>.
\<close>

record runner =
  retrievers :: "retriever list"
  account_queue :: "string queue"
  arn_queue :: "string queue"
  results_queue :: "data queue"
  failure_queue :: "fitem queue"
  failed_arns :: "string list"
  tasks :: "task list"
  num_workers :: int
  swag_config :: "string \<rightharpoonup> string"
  persistence :: "role_data list"
  phase :: phase
  failures_logged :: "fitem list"

definition register_retriever :: "runner \<Rightarrow> retriever \<Rightarrow> runner" where
  "register_retriever r x = r\<lparr>retrievers := retrievers r @ [x]\<rparr>"

section \<open>Running the retriever chain\<close>

fun run_retrievers_from :: "retriever list \<Rightarrow> string \<Rightarrow> data \<Rightarrow> exn + data" where
  "run_retrievers_from [] arn d = Inr d"
| "run_retrievers_from (r # rs) arn d =
     (case r arn d of
        Inl e \<Rightarrow> Inl (RetrieverException None (Some e))
      | Inr d' \<Rightarrow> run_retrievers_from rs arn d')"

definition run_retrievers :: "retriever list \<Rightarrow> string \<Rightarrow> exn + data" where
  "run_retrievers rs arn = run_retrievers_from rs arn [''arn'' \<mapsto> VStr arn]"

section \<open>Seeding the account queue\<close>

text \<open>
  \<^verbatim>\<open>re_account_id = re.compile(r"\d{12}")\<close>, used through \<^verbatim>\<open>match\<close>: the pattern is
  anchored at the start of the string only, so a token matches when its first twelve
  characters are digits, whatever follows them. Tokens are ASCII strings here: Python's
  \<^verbatim>\<open>\d\<close> also accepts the decimal digits of other scripts, which a \<open>char\<close> cannot
  hold, so \<open>is_digit\<close> agrees with it on ASCII tokens only.
\<close>

definition is_digit :: "char \<Rightarrow> bool" where
  "is_digit c = (c \<in> set ''0123456789'')"

definition re_account_id_match :: "string \<Rightarrow> bool" where
  "re_account_id_match s = (12 \<le> length s \<and> list_all is_digit (take 12 s))"

text \<open>
  \<^verbatim>\<open>_get_swag_accounts\<close>: the first \<^verbatim>\<open>get_all\<close> is called before the service requirement
  is read; \<^verbatim>\<open>KeyError\<close>, \<^verbatim>\<open>InvalidSWAGDataException\<close> and \<^verbatim>\<open>ClientError\<close> are wrapped
  into a \<^verbatim>\<open>RetrieverException\<close>, any other exception leaves the function as it is.
  An empty string stands for a service requirement that is present and false.
\<close>

fun swag_failure :: "exn \<Rightarrow> exn" where
  "swag_failure (KeyError k) =
     RetrieverException (Some ''could not retrieve SWAG data'') (Some (KeyError k))"
| "swag_failure InvalidSWAGDataException =
     RetrieverException (Some ''could not retrieve SWAG data'') (Some InvalidSWAGDataException)"
| "swag_failure ClientError =
     RetrieverException (Some ''could not retrieve SWAG data'') (Some ClientError)"
| "swag_failure e = e"

definition get_swag_accounts :: "env \<Rightarrow> (string \<rightharpoonup> string) \<Rightarrow> exn + account list" where
  "get_swag_accounts env cfg =
     (case cfg ''filter'' of
        None \<Rightarrow> Inl (swag_failure (KeyError ''filter''))
      | Some f \<Rightarrow>
          (case swag_get_all env f of
             Inl e \<Rightarrow> Inl (swag_failure e)
           | Inr all_accounts \<Rightarrow>
               (case cfg ''service_enabled_requirement'' of
                  None \<Rightarrow> Inl (swag_failure (KeyError ''service_enabled_requirement''))
                | Some swag_service \<Rightarrow>
                    (if swag_service \<noteq> []
                     then (case swag_get_service_enabled env swag_service all_accounts of
                             Inl e \<Rightarrow> Inl (swag_failure e)
                           | Inr accs \<Rightarrow> Inr accs)
                     else (case swag_get_all env f of
                             Inl e \<Rightarrow> Inl (swag_failure e)
                           | Inr accs \<Rightarrow> Inr accs)))))"

text \<open>
  The seeding functions return the exception that left them, if any, and the queue as
  the puts made until then have left it.
\<close>

fun put_account_ids :: "account list \<Rightarrow> string queue \<Rightarrow> exn option \<times> string queue" where
  "put_account_ids [] q = (None, q)"
| "put_account_ids (a # as) q =
     (case acc_id a of
        None \<Rightarrow> (Some (KeyError ''id''), q)
      | Some i \<Rightarrow> put_account_ids as (q_put q i))"

definition queue_all_accounts ::
  "env \<Rightarrow> (string \<rightharpoonup> string) \<Rightarrow> string queue \<Rightarrow> exn option \<times> string queue" where
  "queue_all_accounts env cfg q =
     (case get_swag_accounts env cfg of
        Inl e \<Rightarrow> (Some e, q)
      | Inr accs \<Rightarrow> put_account_ids accs q)"

definition queue_arns :: "string list \<Rightarrow> string queue \<Rightarrow> string queue" where
  "queue_arns arns q = foldl q_put q arns"

text \<open>
  The first loop of \<^verbatim>\<open>_queue_accounts\<close> iterates over the list \<^verbatim>\<open>accounts\<close> while it
  removes from it. A Python list iterator holds an index: each round reads the element at
  the index if the list is still that long, then moves the index on by one;
  \<^verbatim>\<open>list.remove\<close> deletes the first element equal to its argument.
\<close>

function queue_account_ids ::
  "nat \<Rightarrow> string list \<Rightarrow> string queue \<Rightarrow> string list \<times> string queue" where
  "queue_account_ids i accounts q =
     (if i < length accounts then
        (if re_account_id_match (accounts ! i)
         then queue_account_ids (Suc i) (remove1 (accounts ! i) accounts) (q_put q (accounts ! i))
         else queue_account_ids (Suc i) accounts q)
      else (accounts, q))"
  by pat_completeness auto
termination
  by (relation "measure (\<lambda>(i, accounts, q). length accounts - i)")
     (auto simp: length_remove1)

text \<open>
  The inner loop over one account's aliases: the \<^verbatim>\<open>continue\<close> after the put is the last
  statement of the loop body, so the loop goes on to the next alias.
\<close>

fun queue_aliases ::
  "string list \<Rightarrow> account \<Rightarrow> string list \<Rightarrow> string queue \<Rightarrow> exn option \<times> string queue" where
  "queue_aliases accounts a [] q = (None, q)"
| "queue_aliases accounts a (al # als) q =
     (if al \<in> set accounts
      then (case acc_id a of
              None \<Rightarrow> (Some (KeyError ''id''), q)
            | Some i \<Rightarrow> queue_aliases accounts a als (q_put q i))
      else queue_aliases accounts a als q)"

definition name_in :: "string option \<Rightarrow> string list \<Rightarrow> bool" where
  "name_in n accounts = (case n of None \<Rightarrow> False | Some x \<Rightarrow> x \<in> set accounts)"

definition alias_list :: "account \<Rightarrow> string \<Rightarrow> string list" where
  "alias_list a v =
     (case (if v = ''2'' then acc_aliases a else acc_alias a) of
        None \<Rightarrow> []
      | Some als \<Rightarrow> als)"

fun queue_matching ::
  "string list \<Rightarrow> account list \<Rightarrow> string queue \<Rightarrow> exn option \<times> string queue" where
  "queue_matching accounts [] q = (None, q)"
| "queue_matching accounts (a # as) q =
     (if name_in (acc_name a) accounts
      then (case acc_id a of
              None \<Rightarrow> (Some (KeyError ''id''), q)
            | Some i \<Rightarrow> queue_matching accounts as (q_put q i))
      else (case schemaVersion a of
              None \<Rightarrow> (Some (KeyError ''schemaVersion''), q)
            | Some v \<Rightarrow>
                (case queue_aliases accounts a (alias_list a v) q of
                   (Some e, q') \<Rightarrow> (Some e, q')
                 | (None, q') \<Rightarrow> queue_matching accounts as q')))"

definition queue_accounts ::
  "env \<Rightarrow> (string \<rightharpoonup> string) \<Rightarrow> string list \<Rightarrow> string queue \<Rightarrow> exn option \<times> string queue" where
  "queue_accounts env cfg account_names q =
     (case queue_account_ids 0 account_names q of
        (accounts, q1) \<Rightarrow>
          (case get_swag_accounts env cfg of
             Inl e \<Rightarrow> (Some e, q1)
           | Inr all_accounts \<Rightarrow> queue_matching accounts all_accounts q1))"

section \<open>Enumerating the ARNs of an account\<close>

fun put_arns :: "entity list \<Rightarrow> string queue \<Rightarrow> exn option \<times> string queue" where
  "put_arns [] q = (None, q)"
| "put_arns (e # es) q =
     (case e ''Arn'' of
        None \<Rightarrow> (Some (KeyError ''Arn''), q)
      | Some a \<Rightarrow> put_arns es (q_put q a))"

fun put_pages :: "string \<Rightarrow> (exn + page) list \<Rightarrow> string queue \<Rightarrow> exn option \<times> string queue" where
  "put_pages key [] q = (None, q)"
| "put_pages key (Inl e # ps) q = (Some e, q)"
| "put_pages key (Inr p # ps) q =
     (case p key of
        None \<Rightarrow> (Some (KeyError key), q)
      | Some es \<Rightarrow>
          (case put_arns es q of
             (Some e, q') \<Rightarrow> (Some e, q')
           | (None, q') \<Rightarrow> put_pages key ps q'))"

text \<open>
  \<^verbatim>\<open>_get_arns_for_account\<close> awaits five external calls: the client, then roles, users,
  policies and groups. \<open>lookup_call\<close> is the part of the function that runs when the
  awaited call of a stage returns: the result is received and its ARNs are put, up to
  the next \<^verbatim>\<open>await\<close>, the end of the function or the exception.
\<close>

fun lookup_call :: "env \<Rightarrow> string \<Rightarrow> stage \<Rightarrow> string queue \<Rightarrow> exn option \<times> string queue" where
  "lookup_call env account Conn q = (boto3_cached_conn env account, q)"
| "lookup_call env account Roles q =
     (case list_roles env account of Inl e \<Rightarrow> (Some e, q) | Inr es \<Rightarrow> put_arns es q)"
| "lookup_call env account Users q =
     (case list_users env account of Inl e \<Rightarrow> (Some e, q) | Inr es \<Rightarrow> put_arns es q)"
| "lookup_call env account Policies q =
     (case list_policies env account of
        Inl e \<Rightarrow> (Some e, q)
      | Inr ps \<Rightarrow> put_pages ''Policies'' ps q)"
| "lookup_call env account Groups q =
     (case list_groups env account of
        Inl e \<Rightarrow> (Some e, q)
      | Inr ps \<Rightarrow> put_pages ''Groups'' ps q)"

fun next_stage :: "stage \<Rightarrow> stage option" where
  "next_stage Conn = Some Roles"
| "next_stage Roles = Some Users"
| "next_stage Users = Some Policies"
| "next_stage Policies = Some Groups"
| "next_stage Groups = None"

fun get_arns_from :: "env \<Rightarrow> string \<Rightarrow> stage list \<Rightarrow> string queue \<Rightarrow> exn option \<times> string queue" where
  "get_arns_from env account [] q = (None, q)"
| "get_arns_from env account (st # sts) q =
     (case lookup_call env account st q of
        (Some e, q') \<Rightarrow> (Some e, q')
      | (None, q') \<Rightarrow> get_arns_from env account sts q')"

definition get_arns_for_account :: "env \<Rightarrow> string \<Rightarrow> string queue \<Rightarrow> exn option \<times> string queue" where
  "get_arns_for_account env account q =
     get_arns_from env account [Conn, Roles, Users, Policies, Groups] q"

section \<open>The worker loops\<close>

definition set_status :: "nat \<Rightarrow> status \<Rightarrow> runner \<Rightarrow> runner" where
  "set_status i st r = r\<lparr>tasks := (tasks r)[i := (tasks r ! i)\<lparr>status := st\<rparr>]\<rparr>"

text \<open>
  Each loop ends its round with \<^verbatim>\<open>task_done\<close> on its own queue and goes back to
  \<^verbatim>\<open>get\<close>; a \<^verbatim>\<open>ValueError\<close> from \<^verbatim>\<open>task_done\<close> would leave the loop.
\<close>

definition account_done :: "nat \<Rightarrow> runner \<Rightarrow> runner" where
  "account_done i r =
     (case q_task_done (account_queue r) of
        Inl e \<Rightarrow> set_status i (Crashed e) r
      | Inr q \<Rightarrow> set_status i Waiting (r\<lparr>account_queue := q\<rparr>))"

definition arn_done :: "nat \<Rightarrow> runner \<Rightarrow> runner" where
  "arn_done i r =
     (case q_task_done (arn_queue r) of
        Inl e \<Rightarrow> set_status i (Crashed e) r
      | Inr q \<Rightarrow> set_status i Waiting (r\<lparr>arn_queue := q\<rparr>))"

definition result_done :: "nat \<Rightarrow> runner \<Rightarrow> runner" where
  "result_done i r =
     (case q_task_done (results_queue r) of
        Inl e \<Rightarrow> set_status i (Crashed e) r
      | Inr q \<Rightarrow> set_status i Waiting (r\<lparr>results_queue := q\<rparr>))"

definition put_failure :: "fitem \<Rightarrow> runner \<Rightarrow> runner" where
  "put_failure x r = r\<lparr>failure_queue := q_put (failure_queue r) x\<rparr>"

subsection \<open>\<^verbatim>\<open>_arn_lookup_loop\<close>\<close>

definition arn_lookup_get :: "nat \<Rightarrow> runner \<Rightarrow> runner option" where
  "arn_lookup_get i r =
     (case q_get (account_queue r) of
        None \<Rightarrow> None
      | Some (account, q) \<Rightarrow> Some (set_status i (Looking account Conn) (r\<lparr>account_queue := q\<rparr>)))"

definition arn_lookup_resume :: "env \<Rightarrow> nat \<Rightarrow> string \<Rightarrow> stage \<Rightarrow> runner \<Rightarrow> runner" where
  "arn_lookup_resume env i account st r =
     (case lookup_call env account st (arn_queue r) of
        (Some e, q) \<Rightarrow> account_done i (put_failure (FStr account) (r\<lparr>arn_queue := q\<rparr>))
      | (None, q) \<Rightarrow>
          (case next_stage st of
             Some st' \<Rightarrow> set_status i (Looking account st') (r\<lparr>arn_queue := q\<rparr>)
           | None \<Rightarrow> account_done i (r\<lparr>arn_queue := q\<rparr>)))"

subsection \<open>\<^verbatim>\<open>_retriever_loop\<close>\<close>

definition retriever_get :: "nat \<Rightarrow> runner \<Rightarrow> runner option" where
  "retriever_get i r =
     (case q_get (arn_queue r) of
        None \<Rightarrow> None
      | Some (arn, q) \<Rightarrow> Some (set_status i (Retrieving arn) (r\<lparr>arn_queue := q\<rparr>)))"

definition retriever_resume :: "nat \<Rightarrow> string \<Rightarrow> runner \<Rightarrow> runner" where
  "retriever_resume i arn r =
     (case run_retrievers (retrievers r) arn of
        Inl e \<Rightarrow> arn_done i (put_failure (FStr arn) (r\<lparr>failed_arns := failed_arns r @ [arn]\<rparr>))
      | Inr d \<Rightarrow> arn_done i (r\<lparr>results_queue := q_put (results_queue r) d\<rparr>))"

subsection \<open>\<^verbatim>\<open>_results_loop\<close>\<close>

text \<open>
  The argument of \<^verbatim>\<open>store_role_data\<close> is the dictionary display
  \<^verbatim>\<open>{data["arn"]: data["access_advisor"]}\<close>: both lookups may raise \<^verbatim>\<open>KeyError\<close>, and a
  key that is not hashable raises \<^verbatim>\<open>TypeError\<close>.
\<close>

definition role_data_of :: "data \<Rightarrow> exn + role_data" where
  "role_data_of d =
     (case d ''arn'' of
        None \<Rightarrow> Inl (KeyError ''arn'')
      | Some k \<Rightarrow>
          (case d ''access_advisor'' of
             None \<Rightarrow> Inl (KeyError ''access_advisor'')
           | Some v \<Rightarrow> if hashable k then Inr [(k, v)] else Inl TypeError))"

text \<open>
  After \<^verbatim>\<open>get\<close> the loop evaluates \<^verbatim>\<open>data['arn']\<close> for its debug line, outside the
  \<^verbatim>\<open>try\<close>: a record without that key ends the task before \<^verbatim>\<open>task_done\<close>. Inside the
  \<^verbatim>\<open>try\<close>, an exception raised while the argument is built is handled without any
  suspension; otherwise the task awaits the storage call.
\<close>

definition results_get :: "nat \<Rightarrow> runner \<Rightarrow> runner option" where
  "results_get i r =
     (case q_get (results_queue r) of
        None \<Rightarrow> None
      | Some (d, q) \<Rightarrow>
          (case d ''arn'' of
             None \<Rightarrow> Some (set_status i (Crashed (KeyError ''arn'')) (r\<lparr>results_queue := q\<rparr>))
           | Some _ \<Rightarrow>
               (case role_data_of d of
                  Inl e \<Rightarrow> Some (result_done i (put_failure (FData d) (r\<lparr>results_queue := q\<rparr>)))
                | Inr w \<Rightarrow> Some (set_status i (Storing w d) (r\<lparr>results_queue := q\<rparr>)))))"

definition results_resume :: "env \<Rightarrow> nat \<Rightarrow> role_data \<Rightarrow> data \<Rightarrow> runner \<Rightarrow> runner" where
  "results_resume env i w d r =
     (case store_role_data env w of
        Some e \<Rightarrow> result_done i (put_failure (FData d) (r\<lparr>persistence := persistence r @ [w]\<rparr>))
      | None \<Rightarrow> result_done i (r\<lparr>persistence := persistence r @ [w]\<rparr>))"

subsection \<open>One step of a task\<close>

text \<open>
  A task with a pending cancellation request receives \<^verbatim>\<open>CancelledError\<close> where it is
  suspended and ends, since \<^verbatim>\<open>except Exception\<close> does not catch it. Otherwise a waiting
  task takes the next item of its queue when there is one, and a task suspended in an
  external call resumes with the result of the call.
\<close>

definition task_step :: "env \<Rightarrow> nat \<Rightarrow> runner \<Rightarrow> runner option" where
  "task_step env i r =
     (if length (tasks r) \<le> i then None
      else
        (case status (tasks r ! i) of
           Cancelled \<Rightarrow> None
         | Crashed e \<Rightarrow> None
         | Waiting \<Rightarrow>
             (if cancel_req (tasks r ! i) then Some (set_status i Cancelled r)
              else (case kind (tasks r ! i) of
                      ArnLookup \<Rightarrow> arn_lookup_get i r
                    | Retriever \<Rightarrow> retriever_get i r
                    | Results \<Rightarrow> results_get i r))
         | Looking account st \<Rightarrow>
             (if cancel_req (tasks r ! i) then Some (set_status i Cancelled r)
              else Some (arn_lookup_resume env i account st r))
         | Retrieving arn \<Rightarrow>
             (if cancel_req (tasks r ! i) then Some (set_status i Cancelled r)
              else Some (retriever_resume i arn r))
         | Storing w d \<Rightarrow>
             (if cancel_req (tasks r ! i) then Some (set_status i Cancelled r)
              else Some (results_resume env i w d r))))"

section \<open>The coroutine \<^verbatim>\<open>run\<close>\<close>

definition cancel :: "runner \<Rightarrow> runner" where
  "cancel r = r\<lparr>tasks := map (\<lambda>t. t\<lparr>cancel_req := True\<rparr>) (tasks r)\<rparr>"

definition new_task :: "kind \<Rightarrow> nat \<Rightarrow> task" where
  "new_task k i = \<lparr>kind = k, index = i, status = Waiting, cancel_req = False\<rparr>"

text \<open>\<^verbatim>\<open>for i in range(self.num_workers)\<close>: no round when the number is zero or negative.\<close>

definition create_tasks :: "kind \<Rightarrow> runner \<Rightarrow> runner" where
  "create_tasks k r = r\<lparr>tasks := tasks r @ map (new_task k) [0..<nat (num_workers r)]\<rparr>"

definition truthy :: "'a list option \<Rightarrow> bool" where
  "truthy xs = (case xs of None \<Rightarrow> False | Some [] \<Rightarrow> False | Some (_ # _) \<Rightarrow> True)"

definition list_of :: "'a list option \<Rightarrow> 'a list" where
  "list_of xs = (case xs of None \<Rightarrow> [] | Some ys \<Rightarrow> ys)"

definition launch_workers :: "runner \<Rightarrow> runner" where
  "launch_workers r = (create_tasks Results (create_tasks Retriever r))\<lparr>phase := JoinAccounts\<rparr>"

text \<open>
  \<^verbatim>\<open>run\<close> up to its first \<^verbatim>\<open>join\<close> (lines 236 to 269). No task of the runner exists
  before the first \<^verbatim>\<open>create_task\<close>, so this part runs alone. An exception leaves \<^verbatim>\<open>run\<close>
  at once: \<open>Raised\<close>.
\<close>

definition run_begin ::
  "env \<Rightarrow> retriever \<Rightarrow> string list option \<Rightarrow> string list option \<Rightarrow> runner \<Rightarrow> runner" where
  "run_begin env access_advisor accounts arns r0 =
     (let r = (register_retriever r0 access_advisor)
                \<lparr>arn_queue := Queue, account_queue := Queue,
                 results_queue := Queue, failure_queue := Queue\<rparr>
      in if truthy arns
         then launch_workers (r\<lparr>arn_queue := queue_arns (list_of arns) (arn_queue r)\<rparr>)
         else
           (case (if truthy accounts
                  then queue_accounts env (swag_config r) (list_of accounts) (account_queue r)
                  else queue_all_accounts env (swag_config r) (account_queue r)) of
              (Some e, q) \<Rightarrow> r\<lparr>account_queue := q, phase := Raised e\<rparr>
            | (None, q) \<Rightarrow> launch_workers (create_tasks ArnLookup (r\<lparr>account_queue := q\<rparr>))))"

text \<open>
  The failure loop after \<^verbatim>\<open>cancel\<close>: while the failure queue is not empty, take an item
  and log it. \<^verbatim>\<open>get\<close> on a queue that is not empty does not suspend.
\<close>

fun log_failures :: "fitem list \<Rightarrow> fitem list \<Rightarrow> fitem list \<times> fitem list" where
  "log_failures [] logged = ([], logged)"
| "log_failures (x # xs) logged = log_failures xs (logged @ [x])"

definition report_failures :: "runner \<Rightarrow> runner" where
  "report_failures r =
     (case log_failures (items (failure_queue r)) (failures_logged r) of
        (rest, logged) \<Rightarrow>
          r\<lparr>failure_queue := (failure_queue r)\<lparr>items := rest\<rparr>, failures_logged := logged\<rparr>)"

fun finished :: "status \<Rightarrow> bool" where
  "finished Cancelled = True"
| "finished (Crashed e) = True"
| "finished _ = False"

text \<open>
  One step of \<^verbatim>\<open>run\<close> after the workers are launched. A \<^verbatim>\<open>join\<close> lets \<^verbatim>\<open>run\<close> pass
  when the counter of the queue is zero. After the third \<^verbatim>\<open>join\<close>, \<^verbatim>\<open>cancel\<close> and the
  failure loop run without suspension; \<^verbatim>\<open>gather\<close> then waits until every task has ended.
\<close>

definition main_step :: "runner \<Rightarrow> runner option" where
  "main_step r =
     (case phase r of
        JoinAccounts \<Rightarrow>
          (if q_joined (account_queue r) then Some (r\<lparr>phase := JoinArns\<rparr>) else None)
      | JoinArns \<Rightarrow>
          (if q_joined (arn_queue r) then Some (r\<lparr>phase := JoinResults\<rparr>) else None)
      | JoinResults \<Rightarrow>
          (if q_joined (results_queue r) then Some (r\<lparr>phase := Cleanup\<rparr>) else None)
      | Cleanup \<Rightarrow> Some ((report_failures (cancel r))\<lparr>phase := Gather\<rparr>)
      | Gather \<Rightarrow>
          (if list_all (\<lambda>t. finished (status t)) (tasks r)
           then Some (r\<lparr>phase := Returned\<rparr>) else None)
      | _ \<Rightarrow> None)"

section \<open>Executions\<close>

text \<open>
  The event loop runs one coroutine at a time, up to its next suspension. An execution
  is any sequence of steps of \<^verbatim>\<open>run\<close> and of the tasks, in any order.
\<close>

datatype actor = Main | Worker nat

fun act :: "env \<Rightarrow> actor \<Rightarrow> runner \<Rightarrow> runner option" where
  "act env Main r = main_step r"
| "act env (Worker i) r = task_step env i r"

fun exec :: "env \<Rightarrow> actor list \<Rightarrow> runner \<Rightarrow> runner option" where
  "exec env [] r = Some r"
| "exec env (a # as) r = (case act env a r of None \<Rightarrow> None | Some r' \<Rightarrow> exec env as r')"

definition step :: "env \<Rightarrow> runner \<Rightarrow> runner \<Rightarrow> bool" where
  "step env r r' = (\<exists>a. act env a r = Some r')"

definition reachable :: "env \<Rightarrow> runner \<Rightarrow> runner \<Rightarrow> bool" where
  "reachable env r r' = (\<exists>as. exec env as r = Some r')"

section \<open>Construction and test doubles\<close>

text \<open>
  \<^verbatim>\<open>__init__\<close>: no tasks, no retrievers, no failed ARNs; the pool size and the SWAG
  options come from the configuration. The queues are created by \<^verbatim>\<open>run\<close>.
\<close>

definition init :: "int \<Rightarrow> (string \<rightharpoonup> string) \<Rightarrow> runner" where
  "init n cfg =
     \<lparr>retrievers = [], account_queue = Queue, arn_queue = Queue, results_queue = Queue,
      failure_queue = Queue, failed_arns = [], tasks = [], num_workers = n,
      swag_config = cfg, persistence = [], phase = Idle, failures_logged = []\<rparr>"

text \<open>Retriever plugins for examples: one that adds a field, one that raises.\<close>

definition add_field :: "string \<Rightarrow> val \<Rightarrow> retriever" where
  "add_field k v = (\<lambda>arn d. Inr (d(k \<mapsto> v)))"

definition failing :: "exn \<Rightarrow> retriever" where
  "failing e = (\<lambda>arn d. Inl e)"

text \<open>
  Collaborators for examples: an inventory that knows one account, an enumerator that
  finds one role and one policy and fails on the second page of policies, a storage
  that accepts every write.
\<close>

definition prod_account :: account where
  "prod_account =
     \<lparr>acc_id = Some ''222222222222'', acc_name = Some ''production'',
      schemaVersion = Some ''2'', acc_aliases = Some [''prod'', ''prd''], acc_alias = None\<rparr>"

definition example_env :: env where
  "example_env =
     \<lparr>swag_get_all = (\<lambda>f. Inr [prod_account]),
      swag_get_service_enabled = (\<lambda>s accs. Inr accs),
      boto3_cached_conn = (\<lambda>a. None),
      list_roles = (\<lambda>a. Inr [[''Arn'' \<mapsto> ''r1'']]),
      list_users = (\<lambda>a. Inr []),
      list_policies = (\<lambda>a. Inr [Inr [''Policies'' \<mapsto> [[''Arn'' \<mapsto> ''p1'']]], Inl ClientError]),
      list_groups = (\<lambda>a. Inr []),
      store_role_data = (\<lambda>w. None)\<rparr>"

definition example_config :: "string \<rightharpoonup> string" where
  "example_config = [''opts'' \<mapsto> ''{}'', ''filter'' \<mapsto> [], ''service_enabled_requirement'' \<mapsto> []]"

text \<open>A runner in which one results task is waiting and the given records are queued.\<close>

definition results_runner :: "data list \<Rightarrow> runner" where
  "results_runner ds =
     (init 1 example_config)
       \<lparr>results_queue := \<lparr>items = ds, unfinished = length ds\<rparr>,
        tasks := [new_task Results 0]\<rparr>"

text \<open>
  A runner in which one lookup task holds an account, in the given status, after the
  role \<^verbatim>\<open>r1\<close> has been put on the ARN queue.
\<close>

definition lookup_runner :: "status \<Rightarrow> runner" where
  "lookup_runner st =
     (init 1 example_config)
       \<lparr>account_queue := \<lparr>items = [], unfinished = 1\<rparr>,
        arn_queue := \<lparr>items = [''r1''], unfinished = 1\<rparr>,
        tasks := [(new_task ArnLookup 0)\<lparr>status := st\<rparr>]\<rparr>"

text \<open>
  An example run: one worker per pool, the ARN \<^verbatim>\<open>r1\<close> given, a plugin that adds an
  empty \<^verbatim>\<open>access_advisor\<close>, and the order in which \<^verbatim>\<open>run\<close> and the tasks take their
  steps.
\<close>

definition example_start :: runner where
  "example_start =
     run_begin example_env (add_field ''access_advisor'' (VList [])) None (Some [''r1''])
       (init 1 example_config)"

definition example_schedule :: "actor list" where
  "example_schedule =
     [Main, Worker 0, Worker 0, Main, Worker 1, Worker 1, Main, Main, Worker 0, Worker 1, Main]"

text \<open>
  Further example runs: one whose plugin raises for every ARN, with the order of steps
  up to the failure and from there to the end; one with a pool size of zero; one whose
  plugin returns a record without \<^verbatim>\<open>arn\<close>; and an inventory that is unavailable.
\<close>

definition failing_start :: runner where
  "failing_start =
     run_begin example_env (failing (OtherError ''boom'')) None (Some [''r1''])
       (init 1 example_config)"

definition failing_schedule :: "actor list" where
  "failing_schedule = [Main, Worker 0, Worker 0]"

definition reporting_schedule :: "actor list" where
  "reporting_schedule = [Main, Main, Main, Worker 0, Worker 1, Main]"

definition no_worker_start :: runner where
  "no_worker_start =
     run_begin example_env (add_field ''access_advisor'' (VList [])) None (Some [''r1''])
       (init 0 example_config)"

definition bare :: retriever where
  "bare = (\<lambda>arn d. Inr Map.empty)"

definition bare_start :: runner where
  "bare_start = run_begin example_env bare None (Some [''r1'']) (init 1 example_config)"

definition bare_schedule :: "actor list" where
  "bare_schedule = [Main, Worker 0, Worker 0, Main, Worker 1]"

definition unavailable_env :: env where
  "unavailable_env = example_env\<lparr>swag_get_all := (\<lambda>f. Inl ClientError)\<rparr>"

section \<open>Notions used in the statements\<close>


text \<open>A queue that has only been put to: the old items are still there, in place.\<close>

definition appended :: "'a queue \<Rightarrow> 'a queue \<Rightarrow> bool" where
  "appended q q' =
     (\<exists>xs. items q' = items q @ xs \<and> unfinished q' = unfinished q + length xs)"

text \<open>The tasks one \<^verbatim>\<open>for i in range(self.num_workers)\<close> loop of \<^verbatim>\<open>run\<close> creates.\<close>

definition pool :: "kind \<Rightarrow> int \<Rightarrow> task list" where
  "pool k n = map (new_task k) [0..<nat n]"

text \<open>
  Items in flight: taken from a queue by a task that has not yet acknowledged them.
\<close>

fun is_looking :: "status \<Rightarrow> bool" where
  "is_looking (Looking a st) = True"
| "is_looking _ = False"

fun is_retrieving :: "status \<Rightarrow> bool" where
  "is_retrieving (Retrieving arn) = True"
| "is_retrieving _ = False"

fun is_storing :: "status \<Rightarrow> bool" where
  "is_storing (Storing w d) = True"
| "is_storing _ = False"

definition in_flight :: "(status \<Rightarrow> bool) \<Rightarrow> runner \<Rightarrow> nat" where
  "in_flight P r = length (filter (\<lambda>t. P (status t)) (tasks r))"

definition drained :: "'a queue \<Rightarrow> bool" where
  "drained q = (items q = [] \<and> unfinished q = 0)"

definition cancelling :: "runner \<Rightarrow> bool" where
  "cancelling r = list_ex cancel_req (tasks r)"

text \<open>How far \<^verbatim>\<open>run\<close> has come: the number of \<^verbatim>\<open>join\<close>s passed, then the clean-up.\<close>

fun rank :: "phase \<Rightarrow> nat" where
  "rank Idle = 0"
| "rank (Raised e) = 0"
| "rank JoinAccounts = 1"
| "rank JoinArns = 2"
| "rank JoinResults = 3"
| "rank Cleanup = 4"
| "rank Gather = 5"
| "rank Returned = 6"

text \<open>
  What holds along every execution. The counter of a queue covers its pending items and
  the items in flight. Once \<^verbatim>\<open>run\<close> has passed the \<^verbatim>\<open>join\<close> of a queue, the counter
  of that queue is zero, and a cancellation is requested only after the clean-up.
\<close>

definition accounted :: "runner \<Rightarrow> bool" where
  "accounted r =
     (length (items (account_queue r)) + in_flight is_looking r \<le> unfinished (account_queue r) \<and>
      length (items (arn_queue r)) + in_flight is_retrieving r \<le> unfinished (arn_queue r) \<and>
      length (items (results_queue r)) + in_flight is_storing r \<le> unfinished (results_queue r))"

definition settled :: "runner \<Rightarrow> bool" where
  "settled r =
     ((2 \<le> rank (phase r) \<longrightarrow> unfinished (account_queue r) = 0) \<and>
      (3 \<le> rank (phase r) \<longrightarrow> unfinished (arn_queue r) = 0) \<and>
      (4 \<le> rank (phase r) \<longrightarrow> unfinished (results_queue r) = 0) \<and>
      (cancelling r \<longrightarrow> 5 \<le> rank (phase r)))"

definition inv :: "runner \<Rightarrow> bool" where
  "inv r = (accounted r \<and> settled r)"

text \<open>
  What a step of a task leaves alone: the position of \<^verbatim>\<open>run\<close>, the log and the
  cancellation requests; the failure queue can only grow.
\<close>

definition quiet :: "runner \<Rightarrow> runner \<Rightarrow> bool" where
  "quiet r r' =
     (phase r' = phase r \<and> failures_logged r' = failures_logged r \<and>
      map cancel_req (tasks r') = map cancel_req (tasks r) \<and>
      (\<exists>xs. items (failure_queue r') = items (failure_queue r) @ xs))"

text \<open>Every failure item seen so far: those logged and those still on the failure queue.\<close>

definition all_failures :: "runner \<Rightarrow> fitem list" where
  "all_failures r = failures_logged r @ items (failure_queue r)"

text \<open>
  After the clean-up every task has a cancellation request and the failure queue has
  been emptied into the log; \<^verbatim>\<open>run\<close> is past its seeding.
\<close>

definition reported :: "runner \<Rightarrow> bool" where
  "reported r =
     (1 \<le> rank (phase r) \<and>
      (5 \<le> rank (phase r) \<longrightarrow> list_all cancel_req (tasks r) \<and> items (failure_queue r) = []))"

text \<open>A runner in which neither \<^verbatim>\<open>run\<close> nor any task can take a step.\<close>

definition stuck :: "env \<Rightarrow> runner \<Rightarrow> bool" where
  "stuck env r = (\<forall>a. act env a r = None)"

section \<open>The retriever chain\<close>









section \<open>A failing chain\<close>

lemma run_retrievers_from_append:
  "run_retrievers_from (pre @ rs) arn d =
     (case run_retrievers_from pre arn d of Inl e \<Rightarrow> Inl e | Inr d' \<Rightarrow> run_retrievers_from rs arn d')"
  by (induction pre arbitrary: d) (simp_all split: sum.splits)

lemma run_retrievers_fails_at:
  "run_retrievers_from pre arn [''arn'' \<mapsto> VStr arn] = Inr d \<Longrightarrow> s arn d = Inl e \<Longrightarrow>
   run_retrievers (pre @ s # post) arn = Inl (RetrieverException None (Some e))"
  by (simp add: run_retrievers_def run_retrievers_from_append)

lemma set_status_fields [simp]:
  "retrievers (set_status i st r) = retrievers r"
  "account_queue (set_status i st r) = account_queue r"
  "arn_queue (set_status i st r) = arn_queue r"
  "results_queue (set_status i st r) = results_queue r"
  "failure_queue (set_status i st r) = failure_queue r"
  "failed_arns (set_status i st r) = failed_arns r"
  "persistence (set_status i st r) = persistence r"
  "phase (set_status i st r) = phase r"
  "failures_logged (set_status i st r) = failures_logged r"
  "num_workers (set_status i st r) = num_workers r"
  "swag_config (set_status i st r) = swag_config r"
  "tasks (set_status i st r) = (tasks r)[i := (tasks r ! i)\<lparr>status := st\<rparr>]"
  by (simp_all add: set_status_def)

text \<open>
  C5. When the plugins before some plugin succeed and that plugin raises \<open>e\<close>, the
  chain raises a \<^verbatim>\<open>RetrieverException\<close> whose cause is \<open>e\<close>, whatever plugins come after
  it: they are not run. The retriever task that holds the ARN then appends the ARN to
  \<^verbatim>\<open>failed_arns\<close>, puts it on the failure queue, acknowledges it on the ARN queue and
  goes back to waiting; the results queue and the storage are left as they were.
\<close>

theorem failed_chain_goes_to_failure_queue:
  assumes "retrievers r = pre @ s # post"
    and "run_retrievers_from pre arn [''arn'' \<mapsto> VStr arn] = Inr d"
    and "s arn d = Inl e"
    and "i < length (tasks r)"
    and "status (tasks r ! i) = Retrieving arn"
    and "\<not> cancel_req (tasks r ! i)"
    and "0 < unfinished (arn_queue r)"
  shows "run_retrievers (pre @ s # post) arn = Inl (RetrieverException None (Some e)) \<and>
         run_retrievers (pre @ s # post) arn = run_retrievers (pre @ [s]) arn \<and>
         (\<exists>r'. task_step env i r = Some r' \<and>
            items (failure_queue r') = items (failure_queue r) @ [FStr arn] \<and>
            failed_arns r' = failed_arns r @ [arn] \<and>
            unfinished (arn_queue r') = unfinished (arn_queue r) - 1 \<and>
            items (arn_queue r') = items (arn_queue r) \<and>
            results_queue r' = results_queue r \<and>
            persistence r' = persistence r \<and>
            status (tasks r' ! i) = Waiting)"
proof -
  have fail: "run_retrievers (pre @ s # post) arn = Inl (RetrieverException None (Some e))"
    using assms(2,3) by (rule run_retrievers_fails_at)
  have "run_retrievers (pre @ [s]) arn = Inl (RetrieverException None (Some e))"
    using assms(2,3) by (rule run_retrievers_fails_at)
  with fail have same: "run_retrievers (pre @ s # post) arn = run_retrievers (pre @ [s]) arn"
    by simp
  have step: "task_step env i r = Some (retriever_resume i arn r)"
    using assms(4,5,6) by (simp add: task_step_def)
  have res: "retriever_resume i arn r =
      arn_done i (put_failure (FStr arn) (r\<lparr>failed_arns := failed_arns r @ [arn]\<rparr>))"
    using fail assms(1) by (simp add: retriever_resume_def)
  show ?thesis
    using fail same step assms(4,7)
    by (simp add: res arn_done_def put_failure_def q_task_done_def q_put_def)
qed

theorem failed_chain_goes_to_failure_queue_witness:
  "run_retrievers
     [add_field ''x'' (VInt 1), failing (OtherError ''boom''), add_field ''y'' (VInt 2)] ''r1''
     = Inl (RetrieverException None (Some (OtherError ''boom''))) \<and>
   (\<exists>r'. task_step example_env 0
          ((init 1 example_config)
             \<lparr>retrievers :=
                [add_field ''x'' (VInt 1), failing (OtherError ''boom''), add_field ''y'' (VInt 2)],
              arn_queue := \<lparr>items = [], unfinished = 1\<rparr>,
              tasks := [\<lparr>kind = Retriever, index = 0, status = Retrieving ''r1'',
                         cancel_req = False\<rparr>]\<rparr>) = Some r' \<and>
        items (failure_queue r') = [FStr ''r1''] \<and>
        failed_arns r' = [''r1''] \<and>
        unfinished (arn_queue r') = 0 \<and>
        items (arn_queue r') = [] \<and>
        results_queue r' = Queue \<and>
        persistence r' = [] \<and>
        status (tasks r' ! 0) = Waiting)"
  using failed_chain_goes_to_failure_queue
    [of "(init 1 example_config)
             \<lparr>retrievers :=
                [add_field ''x'' (VInt 1), failing (OtherError ''boom''), add_field ''y'' (VInt 2)],
              arn_queue := \<lparr>items = [], unfinished = 1\<rparr>,
              tasks := [\<lparr>kind = Retriever, index = 0, status = Retrieving ''r1'',
                         cancel_req = False\<rparr>]\<rparr>"
        "[add_field ''x'' (VInt 1)]" "failing (OtherError ''boom'')" "[add_field ''y'' (VInt 2)]"
        "''r1''" "[''arn'' \<mapsto> VStr ''r1'', ''x'' \<mapsto> VInt 1]" "OtherError ''boom''" 0 example_env]
  by (simp add: init_def add_field_def failing_def Queue_def)

section \<open>Seeding from account names and ids\<close>

lemma re_match_ex [simp]:
  "re_account_id_match ''111111111111''" "re_account_id_match ''222222222222''"
  "\<not> re_account_id_match ''prod''" "\<not> re_account_id_match ''prd''"
  by (simp_all add: re_account_id_match_def is_digit_def)

text \<open>
  C3. Of two account ids in a row only the first is put on the account queue: removing
  it moves the second to the index the loop has just left, so the loop never reads it.
  The second id stays in the list of names to resolve, and is queued only if an
  inventory entry has it as its name or alias.
\<close>

theorem consecutive_account_ids_second_skipped:
  "queue_account_ids 0 [''111111111111'', ''222222222222''] Queue
     = ([''222222222222''], \<lparr>items = [''111111111111''], unfinished = 1\<rparr>) \<and>
   queue_accounts example_env example_config [''111111111111'', ''222222222222''] Queue
     = (None, \<lparr>items = [''111111111111''], unfinished = 1\<rparr>)"
  by (simp add: queue_accounts_def get_swag_accounts_def example_env_def example_config_def
      prod_account_def name_in_def alias_list_def Queue_def q_put_def)

text \<open>
  C2. An account whose alias list matches the requested names twice has its id put on
  the account queue twice: once for an alias that occurs twice and matches one name,
  and once each for two aliases that match two names.
\<close>

theorem two_matching_aliases_queue_id_twice:
  "queue_accounts
     (example_env\<lparr>swag_get_all :=
        (\<lambda>f. Inr [prod_account\<lparr>acc_aliases := Some [''prod'', ''prod'']\<rparr>])\<rparr>)
     example_config [''prod''] Queue
     = (None, \<lparr>items = [''222222222222'', ''222222222222''], unfinished = 2\<rparr>) \<and>
   queue_accounts example_env example_config [''prod'', ''prd''] Queue
     = (None, \<lparr>items = [''222222222222'', ''222222222222''], unfinished = 2\<rparr>)"
  by (simp add: queue_accounts_def get_swag_accounts_def example_env_def example_config_def
      prod_account_def name_in_def alias_list_def Queue_def q_put_def)

section \<open>Storing results\<close>

lemma put_failure_fields [simp]:
  "retrievers (put_failure x r) = retrievers r"
  "account_queue (put_failure x r) = account_queue r"
  "arn_queue (put_failure x r) = arn_queue r"
  "results_queue (put_failure x r) = results_queue r"
  "failure_queue (put_failure x r) = q_put (failure_queue r) x"
  "failed_arns (put_failure x r) = failed_arns r"
  "persistence (put_failure x r) = persistence r"
  "phase (put_failure x r) = phase r"
  "failures_logged (put_failure x r) = failures_logged r"
  "tasks (put_failure x r) = tasks r"
  by (simp_all add: put_failure_def)

lemma q_put_fields [simp]:
  "items (q_put q x) = items q @ [x]"
  "unfinished (q_put q x) = Suc (unfinished q)"
  by (simp_all add: q_put_def)

lemma result_done_fields [simp]:
  "retrievers (result_done i r) = retrievers r"
  "account_queue (result_done i r) = account_queue r"
  "arn_queue (result_done i r) = arn_queue r"
  "items (results_queue (result_done i r)) = items (results_queue r)"
  "unfinished (results_queue (result_done i r)) = unfinished (results_queue r) - 1"
  "failure_queue (result_done i r) = failure_queue r"
  "failed_arns (result_done i r) = failed_arns r"
  "persistence (result_done i r) = persistence r"
  "phase (result_done i r) = phase r"
  "failures_logged (result_done i r) = failures_logged r"
  by (simp_all add: result_done_def q_task_done_def)

lemma result_done_tasks:
  "0 < unfinished (results_queue r) \<Longrightarrow>
   tasks (result_done i r) = (tasks r)[i := (tasks r ! i)\<lparr>status := Waiting\<rparr>]"
  by (simp add: result_done_def q_task_done_def)

text \<open>
  C1, as the code has it. For a record that holds \<^verbatim>\<open>arn\<close> with a hashable value and
  \<^verbatim>\<open>access_advisor\<close>, the results task builds the single-entry mapping from the value
  of \<^verbatim>\<open>arn\<close> to the value of \<^verbatim>\<open>access_advisor\<close>, and that mapping is what the storage
  receives; the other fields of the record are not passed on.
\<close>

theorem stored_value_is_access_advisor:
  assumes "i < length (tasks r)"
    and "status (tasks r ! i) = Waiting"
    and "kind (tasks r ! i) = Results"
    and "\<not> cancel_req (tasks r ! i)"
    and "items (results_queue r) = d # rest"
    and "d ''arn'' = Some k"
    and "hashable k"
    and "d ''access_advisor'' = Some v"
  shows "\<exists>r1. task_step env i r = Some r1 \<and>
           status (tasks r1 ! i) = Storing [(k, v)] d \<and>
           persistence r1 = persistence r \<and>
           (\<exists>r2. task_step env i r1 = Some r2 \<and> persistence r2 = persistence r @ [[(k, v)]])"
proof -
  let ?r1 = "set_status i (Storing [(k, v)] d) (r\<lparr>results_queue := (results_queue r)\<lparr>items := rest\<rparr>\<rparr>)"
  have w: "role_data_of d = Inr [(k, v)]"
    using assms(6,7,8) by (simp add: role_data_of_def)
  have "results_get i r = Some ?r1"
    using assms(5,6) w by (simp add: results_get_def q_get_def)
  then have s1: "task_step env i r = Some ?r1"
    using assms(1,2,3,4) by (simp add: task_step_def)
  have st: "status (tasks ?r1 ! i) = Storing [(k, v)] d"
    using assms(1) by simp
  have "task_step env i ?r1 = Some (results_resume env i [(k, v)] d ?r1)"
    using assms(1,4) by (simp add: task_step_def)
  moreover have "persistence (results_resume env i [(k, v)] d ?r1) = persistence r @ [[(k, v)]]"
    by (simp add: results_resume_def split: option.splits)
  ultimately show ?thesis using s1 st by simp
qed

theorem stored_value_is_access_advisor_witness:
  "\<exists>r1. task_step example_env 0
          (results_runner [[''arn'' \<mapsto> VStr ''id:alpha'', ''x'' \<mapsto> VInt 1,
                            ''access_advisor'' \<mapsto> VList [VStr ''iam'']]]) = Some r1 \<and>
        status (tasks r1 ! 0) =
          Storing [(VStr ''id:alpha'', VList [VStr ''iam''])]
            [''arn'' \<mapsto> VStr ''id:alpha'', ''x'' \<mapsto> VInt 1,
             ''access_advisor'' \<mapsto> VList [VStr ''iam'']] \<and>
        persistence r1 = [] \<and>
        (\<exists>r2. task_step example_env 0 r1 = Some r2 \<and>
              persistence r2 = [[(VStr ''id:alpha'', VList [VStr ''iam''])]])"
  using stored_value_is_access_advisor
    [of 0 "results_runner [[''arn'' \<mapsto> VStr ''id:alpha'', ''x'' \<mapsto> VInt 1,
                            ''access_advisor'' \<mapsto> VList [VStr ''iam'']]]"
        "[''arn'' \<mapsto> VStr ''id:alpha'', ''x'' \<mapsto> VInt 1,
          ''access_advisor'' \<mapsto> VList [VStr ''iam'']]" "[]"
        "VStr ''id:alpha''" "VList [VStr ''iam'']" example_env]
  by (simp add: results_runner_def init_def new_task_def)

text \<open>
  C1, as the claim has it, fails on its own scenario: the record that the two plugins
  build for \<^verbatim>\<open>id:alpha\<close> has no \<^verbatim>\<open>access_advisor\<close>, so the results task stores
  nothing and puts the record on the failure queue.
\<close>

theorem scenario_record_is_not_stored:
  "run_retrievers [add_field ''x'' (VInt 1), add_field ''y'' (VInt 2)] ''id:alpha''
     = Inr [''arn'' \<mapsto> VStr ''id:alpha'', ''x'' \<mapsto> VInt 1, ''y'' \<mapsto> VInt 2] \<and>
   map_option persistence
     (task_step example_env 0
        (results_runner [[''arn'' \<mapsto> VStr ''id:alpha'', ''x'' \<mapsto> VInt 1, ''y'' \<mapsto> VInt 2]]))
     = Some [] \<and>
   map_option failure_queue
     (task_step example_env 0
        (results_runner [[''arn'' \<mapsto> VStr ''id:alpha'', ''x'' \<mapsto> VInt 1, ''y'' \<mapsto> VInt 2]]))
     = Some \<lparr>items = [FData [''arn'' \<mapsto> VStr ''id:alpha'', ''x'' \<mapsto> VInt 1, ''y'' \<mapsto> VInt 2]],
             unfinished = 1\<rparr> \<and>
   map_option tasks
     (task_step example_env 0
        (results_runner [[''arn'' \<mapsto> VStr ''id:alpha'', ''x'' \<mapsto> VInt 1, ''y'' \<mapsto> VInt 2]]))
     = Some [new_task Results 0]"
  by (simp add: run_retrievers_def add_field_def results_runner_def init_def new_task_def
      task_step_def results_get_def q_get_def role_data_of_def result_done_def
      q_task_done_def put_failure_def q_put_def set_status_def Queue_def)

text \<open>
  The error branch of the results loop. A dequeued record that has \<^verbatim>\<open>arn\<close> but no
  \<^verbatim>\<open>access_advisor\<close> raises \<^verbatim>\<open>KeyError\<close> inside the \<^verbatim>\<open>try\<close>: nothing is stored, the
  whole record is put on the failure queue, the item is acknowledged, and the task is
  back at \<^verbatim>\<open>get\<close> for the next record.
\<close>

lemma missing_access_advisor_goes_to_failure_queue:
  assumes "i < length (tasks r)"
    and "status (tasks r ! i) = Waiting"
    and "kind (tasks r ! i) = Results"
    and "\<not> cancel_req (tasks r ! i)"
    and "items (results_queue r) = d # rest"
    and "d ''arn'' = Some k"
    and "d ''access_advisor'' = None"
    and "0 < unfinished (results_queue r)"
  shows "role_data_of d = Inl (KeyError ''access_advisor'') \<and>
         (\<exists>r'. task_step env i r = Some r' \<and>
            items (failure_queue r') = items (failure_queue r) @ [FData d] \<and>
            items (results_queue r') = rest \<and>
            unfinished (results_queue r') = unfinished (results_queue r) - 1 \<and>
            persistence r' = persistence r \<and>
            status (tasks r' ! i) = Waiting \<and>
            kind (tasks r' ! i) = Results \<and>
            \<not> cancel_req (tasks r' ! i) \<and>
            task_step env i r' = results_get i r')"
proof -
  let ?q = "r\<lparr>results_queue := (results_queue r)\<lparr>items := rest\<rparr>\<rparr>"
  let ?r' = "result_done i (put_failure (FData d) ?q)"
  have w: "role_data_of d = Inl (KeyError ''access_advisor'')"
    using assms(6,7) by (simp add: role_data_of_def)
  have "results_get i r = Some ?r'"
    using assms(5,6) w by (simp add: results_get_def q_get_def)
  then have s1: "task_step env i r = Some ?r'"
    using assms(1,2,3,4) by (simp add: task_step_def)
  have t: "tasks ?r' = (tasks r)[i := (tasks r ! i)\<lparr>status := Waiting\<rparr>]"
    using assms(8) by (simp add: result_done_tasks)
  have next_round: "task_step env i ?r' = results_get i ?r'"
    using assms(1,3,4) by (simp add: task_step_def t)
  show ?thesis
    using w s1 next_round assms(1,3,4) by (simp add: t)
qed

lemma missing_access_advisor_goes_to_failure_queue_example:
  "role_data_of [''arn'' \<mapsto> VStr ''r1'', ''x'' \<mapsto> VInt 1] = Inl (KeyError ''access_advisor'') \<and>
   (\<exists>r'. task_step example_env 0
           (results_runner [[''arn'' \<mapsto> VStr ''r1'', ''x'' \<mapsto> VInt 1],
                            [''arn'' \<mapsto> VStr ''r2'']]) = Some r' \<and>
         items (failure_queue r') = [FData [''arn'' \<mapsto> VStr ''r1'', ''x'' \<mapsto> VInt 1]] \<and>
         items (results_queue r') = [[''arn'' \<mapsto> VStr ''r2'']] \<and>
         unfinished (results_queue r') = 1 \<and>
         persistence r' = [] \<and>
         status (tasks r' ! 0) = Waiting \<and>
         kind (tasks r' ! 0) = Results \<and>
         \<not> cancel_req (tasks r' ! 0) \<and>
         task_step example_env 0 r' = results_get 0 r')"
  using missing_access_advisor_goes_to_failure_queue
    [of 0 "results_runner [[''arn'' \<mapsto> VStr ''r1'', ''x'' \<mapsto> VInt 1],
                            [''arn'' \<mapsto> VStr ''r2'']]"
        "[''arn'' \<mapsto> VStr ''r1'', ''x'' \<mapsto> VInt 1]" "[[''arn'' \<mapsto> VStr ''r2'']]"
        "VStr ''r1''" example_env]
  by (simp add: results_runner_def init_def new_task_def Queue_def)

text \<open>
  C10. The record need not have \<^verbatim>\<open>arn\<close> either: a plugin may return a dictionary of
  its own. For such a record the lookup \<^verbatim>\<open>data['arn']\<close> of the debug line, which
  stands before the \<^verbatim>\<open>try\<close>, raises \<^verbatim>\<open>KeyError\<close> and ends the task: the record is
  not put on the failure queue, the item is not acknowledged, and the task takes no
  further step, so the record queued behind it stays where it is.
\<close>

theorem record_without_arn_ends_results_task:
  "map_option tasks
     (task_step example_env 0 (results_runner [Map.empty, [''arn'' \<mapsto> VStr ''r2'']]))
     = Some [(new_task Results 0)\<lparr>status := Crashed (KeyError ''arn'')\<rparr>] \<and>
   map_option failure_queue
     (task_step example_env 0 (results_runner [Map.empty, [''arn'' \<mapsto> VStr ''r2'']]))
     = Some \<lparr>items = [], unfinished = 0\<rparr> \<and>
   map_option results_queue
     (task_step example_env 0 (results_runner [Map.empty, [''arn'' \<mapsto> VStr ''r2'']]))
     = Some \<lparr>items = [[''arn'' \<mapsto> VStr ''r2'']], unfinished = 2\<rparr> \<and>
   map_option persistence
     (task_step example_env 0 (results_runner [Map.empty, [''arn'' \<mapsto> VStr ''r2'']]))
     = Some [] \<and>
   Option.bind
     (task_step example_env 0 (results_runner [Map.empty, [''arn'' \<mapsto> VStr ''r2'']]))
     (task_step example_env 0) = None"
  by (simp add: results_runner_def init_def new_task_def task_step_def results_get_def
      q_get_def set_status_def Queue_def)

section \<open>Enumerating an account\<close>

lemma appended_refl: "appended q q"
  by (simp add: appended_def)

lemma appended_put: "appended q (q_put q x)"
  by (simp add: appended_def)

lemma appended_trans: "appended q q' \<Longrightarrow> appended q' q'' \<Longrightarrow> appended q q''"
  by (auto simp: appended_def)

lemma put_arns_appended: "put_arns es q = (res, q') \<Longrightarrow> appended q q'"
proof (induction es arbitrary: q)
  case Nil
  then show ?case by (simp add: appended_refl)
next
  case (Cons e es)
  show ?case
  proof (cases "e ''Arn''")
    case None
    with Cons.prems show ?thesis by (simp add: appended_refl)
  next
    case (Some a)
    with Cons.prems have "put_arns es (q_put q a) = (res, q')" by simp
    then have "appended (q_put q a) q'" by (rule Cons.IH)
    with appended_put show ?thesis by (rule appended_trans)
  qed
qed

lemma put_pages_appended: "put_pages key ps q = (res, q') \<Longrightarrow> appended q q'"
proof (induction key ps q rule: put_pages.induct)
  case (1 key q)
  then show ?case by (simp add: appended_refl)
next
  case (2 key e ps q)
  then show ?case by (simp add: appended_refl)
next
  case (3 key p ps q)
  show ?case
  proof (cases "p key")
    case None
    with "3.prems" show ?thesis by (simp add: appended_refl)
  next
    case (Some es)
    obtain r1 q1 where pa: "put_arns es q = (r1, q1)" by (cases "put_arns es q")
    then have a1: "appended q q1" by (rule put_arns_appended)
    show ?thesis
    proof (cases r1)
      case None
      with "3.prems" Some pa have "put_pages key ps q1 = (res, q')" by simp
      with "3.IH" Some pa None have "appended q1 q'" by simp
      with a1 show ?thesis by (rule appended_trans)
    next
      case (Some e)
      with "3.prems" \<open>p key = Some es\<close> pa have "q' = q1" by simp
      with a1 show ?thesis by simp
    qed
  qed
qed

lemma lookup_call_appended: "lookup_call env account st q = (res, q') \<Longrightarrow> appended q q'"
  by (cases st)
     (auto simp: appended_refl split: sum.splits dest: put_arns_appended put_pages_appended)

lemma account_done_fields [simp]:
  "retrievers (account_done i r) = retrievers r"
  "items (account_queue (account_done i r)) = items (account_queue r)"
  "unfinished (account_queue (account_done i r)) = unfinished (account_queue r) - 1"
  "arn_queue (account_done i r) = arn_queue r"
  "results_queue (account_done i r) = results_queue r"
  "failure_queue (account_done i r) = failure_queue r"
  "failed_arns (account_done i r) = failed_arns r"
  "persistence (account_done i r) = persistence r"
  "phase (account_done i r) = phase r"
  "failures_logged (account_done i r) = failures_logged r"
  by (simp_all add: account_done_def q_task_done_def)

lemma account_done_tasks:
  "0 < unfinished (account_queue r) \<Longrightarrow>
   tasks (account_done i r) = (tasks r)[i := (tasks r ! i)\<lparr>status := Waiting\<rparr>]"
  by (simp add: account_done_def q_task_done_def)

text \<open>
  C6. A lookup task resumes with the result of the call it awaited, for any of the five
  stages. The ARNs the call yields are appended to the ARN queue, and nothing that was
  on it is taken back. If the stage raises, the account is put on the failure queue
  once, acknowledged, and the task waits for the next account. If it does not raise,
  the failure queue is untouched; the account is acknowledged only after the last
  stage, and before that the account queue is as it was and the task awaits the next
  call.
\<close>

theorem lookup_failure_is_isolated:
  assumes "i < length (tasks r)"
    and "status (tasks r ! i) = Looking account st"
    and "\<not> cancel_req (tasks r ! i)"
    and "0 < unfinished (account_queue r)"
    and "lookup_call env account st (arn_queue r) = (res, q)"
  shows "\<exists>r'. task_step env i r = Some r' \<and>
           arn_queue r' = q \<and> appended (arn_queue r) (arn_queue r') \<and>
           items (account_queue r') = items (account_queue r) \<and>
           (if res \<noteq> None
            then items (failure_queue r') = items (failure_queue r) @ [FStr account] \<and>
                 unfinished (account_queue r') = unfinished (account_queue r) - 1 \<and>
                 status (tasks r' ! i) = Waiting
            else failure_queue r' = failure_queue r \<and>
                 (if st = Groups
                  then unfinished (account_queue r') = unfinished (account_queue r) - 1 \<and>
                       status (tasks r' ! i) = Waiting
                  else account_queue r' = account_queue r \<and>
                       (\<exists>st'. next_stage st = Some st' \<and>
                              status (tasks r' ! i) = Looking account st')))"
proof -
  have step: "task_step env i r = Some (arn_lookup_resume env i account st r)"
    using assms(1,2,3) by (simp add: task_step_def)
  have app: "appended (arn_queue r) q"
    using assms(5) by (rule lookup_call_appended)
  show ?thesis
  proof (cases res)
    case (Some e)
    then have "arn_lookup_resume env i account st r =
        account_done i (put_failure (FStr account) (r\<lparr>arn_queue := q\<rparr>))"
      using assms(5) by (simp add: arn_lookup_resume_def)
    then show ?thesis
      using step app Some assms(1,4) by (simp add: account_done_tasks)
  next
    case None
    show ?thesis
    proof (cases "next_stage st")
      case no_next: None
      then have g: "st = Groups" by (cases st) simp_all
      have "arn_lookup_resume env i account st r = account_done i (r\<lparr>arn_queue := q\<rparr>)"
        using assms(5) None no_next by (simp add: arn_lookup_resume_def)
      then show ?thesis
        using step app None g assms(1,4) by (simp add: account_done_tasks)
    next
      case (Some st')
      then have g: "st \<noteq> Groups" by (cases st) simp_all
      have "arn_lookup_resume env i account st r =
          set_status i (Looking account st') (r\<lparr>arn_queue := q\<rparr>)"
        using assms(5) None Some by (simp add: arn_lookup_resume_def)
      then show ?thesis
        using step app None Some g assms(1) by simp
    qed
  qed
qed

theorem lookup_failure_is_isolated_witness:
  "lookup_call example_env ''222222222222'' Policies \<lparr>items = [''r1''], unfinished = 1\<rparr>
     = (Some ClientError, \<lparr>items = [''r1'', ''p1''], unfinished = 2\<rparr>) \<and>
   (\<exists>r'. task_step example_env 0 (lookup_runner (Looking ''222222222222'' Policies)) = Some r' \<and>
         arn_queue r' = \<lparr>items = [''r1'', ''p1''], unfinished = 2\<rparr> \<and>
         items (failure_queue r') = [FStr ''222222222222''] \<and>
         unfinished (account_queue r') = 0 \<and>
         status (tasks r' ! 0) = Waiting)"
proof -
  have c: "lookup_call example_env ''222222222222'' Policies \<lparr>items = [''r1''], unfinished = 1\<rparr>
     = (Some ClientError, \<lparr>items = [''r1'', ''p1''], unfinished = 2\<rparr>)"
    by (simp add: example_env_def q_put_def)
  from lookup_failure_is_isolated
    [of 0 "lookup_runner (Looking ''222222222222'' Policies)" "''222222222222''" Policies
        example_env "Some ClientError" "\<lparr>items = [''r1'', ''p1''], unfinished = 2\<rparr>"] c
  show ?thesis
    by (auto simp: lookup_runner_def init_def new_task_def Queue_def)
qed

section \<open>Launching the worker pools\<close>

lemma create_tasks_fields [simp]:
  "retrievers (create_tasks k r) = retrievers r"
  "account_queue (create_tasks k r) = account_queue r"
  "arn_queue (create_tasks k r) = arn_queue r"
  "results_queue (create_tasks k r) = results_queue r"
  "failure_queue (create_tasks k r) = failure_queue r"
  "failed_arns (create_tasks k r) = failed_arns r"
  "persistence (create_tasks k r) = persistence r"
  "phase (create_tasks k r) = phase r"
  "failures_logged (create_tasks k r) = failures_logged r"
  "num_workers (create_tasks k r) = num_workers r"
  "swag_config (create_tasks k r) = swag_config r"
  "tasks (create_tasks k r) = tasks r @ pool k (num_workers r)"
  by (simp_all add: create_tasks_def pool_def)

lemma launch_workers_fields [simp]:
  "retrievers (launch_workers r) = retrievers r"
  "account_queue (launch_workers r) = account_queue r"
  "arn_queue (launch_workers r) = arn_queue r"
  "results_queue (launch_workers r) = results_queue r"
  "failure_queue (launch_workers r) = failure_queue r"
  "failed_arns (launch_workers r) = failed_arns r"
  "persistence (launch_workers r) = persistence r"
  "phase (launch_workers r) = JoinAccounts"
  "failures_logged (launch_workers r) = failures_logged r"
  "num_workers (launch_workers r) = num_workers r"
  "tasks (launch_workers r) =
     tasks r @ pool Retriever (num_workers r) @ pool Results (num_workers r)"
  by (simp_all add: launch_workers_def)

lemma register_retriever_fields [simp]:
  "tasks (register_retriever r x) = tasks r"
  "num_workers (register_retriever r x) = num_workers r"
  "swag_config (register_retriever r x) = swag_config r"
  "phase (register_retriever r x) = phase r"
  "persistence (register_retriever r x) = persistence r"
  "failed_arns (register_retriever r x) = failed_arns r"
  "failures_logged (register_retriever r x) = failures_logged r"
  "retrievers (register_retriever r x) = retrievers r @ [x]"
  by (simp_all add: register_retriever_def)

lemma run_begin_arns:
  "truthy arns \<Longrightarrow>
   phase (run_begin env aa accounts arns r) = JoinAccounts \<and>
   tasks (run_begin env aa accounts arns r) =
     tasks r @ pool Retriever (num_workers r) @ pool Results (num_workers r)"
  by (simp add: run_begin_def Let_def)

lemma run_begin_no_arns:
  "\<not> truthy arns \<Longrightarrow>
   (phase (run_begin env aa accounts arns r) = JoinAccounts \<and>
    tasks (run_begin env aa accounts arns r) =
      tasks r @ pool ArnLookup (num_workers r) @ pool Retriever (num_workers r)
        @ pool Results (num_workers r)) \<or>
   ((\<exists>e. phase (run_begin env aa accounts arns r) = Raised e) \<and>
    tasks (run_begin env aa accounts arns r) = tasks r)"
  by (auto simp: run_begin_def Let_def split: prod.splits option.splits)

text \<open>
  C8, as the code has it. When ARNs are given, \<^verbatim>\<open>run\<close> reaches its first
  \<^verbatim>\<open>join\<close> having created the retriever pool and the results pool and no lookup task.
  When no ARNs are given and seeding does not raise, it has created the lookup pool as
  well, whether or not seeding has put any account on the queue. Each pool has
  \<^verbatim>\<open>num_workers\<close> tasks.
\<close>

theorem lookup_pool_launched_unless_arns_given:
  "(truthy arns \<longrightarrow>
      phase (run_begin env aa accounts arns r) = JoinAccounts \<and>
      tasks (run_begin env aa accounts arns r) =
        tasks r @ pool Retriever (num_workers r) @ pool Results (num_workers r)) \<and>
   (\<not> truthy arns \<and> phase (run_begin env aa accounts arns r) = JoinAccounts \<longrightarrow>
      tasks (run_begin env aa accounts arns r) =
        tasks r @ pool ArnLookup (num_workers r) @ pool Retriever (num_workers r)
          @ pool Results (num_workers r)) \<and>
   length (pool ArnLookup (num_workers r)) = nat (num_workers r) \<and>
   length (pool Retriever (num_workers r)) = nat (num_workers r) \<and>
   length (pool Results (num_workers r)) = nat (num_workers r)"
  using run_begin_arns [of arns env aa accounts r] run_begin_no_arns [of arns env aa accounts r]
  by (auto simp: pool_def)

lemma pool_2 [simp]: "pool k 2 = [new_task k 0, new_task k 1]"
  by (simp add: pool_def upt_rec)

theorem lookup_pool_launched_unless_arns_given_witness:
  "tasks (run_begin example_env (add_field ''access_advisor'' (VList [])) None (Some [''r1''])
            (init 2 example_config))
     = [new_task Retriever 0, new_task Retriever 1, new_task Results 0, new_task Results 1] \<and>
   tasks (run_begin example_env (add_field ''access_advisor'' (VList [])) None None
            (init 2 example_config))
     = [new_task ArnLookup 0, new_task ArnLookup 1, new_task Retriever 0, new_task Retriever 1,
        new_task Results 0, new_task Results 1]"
proof -
  have t: "truthy (Some [''r1''])" "\<not> truthy (None :: string list option)"
    by (simp_all add: truthy_def)
  have p: "phase (run_begin example_env (add_field ''access_advisor'' (VList [])) None None
            (init 2 example_config)) = JoinAccounts"
    by (simp add: run_begin_def truthy_def queue_all_accounts_def get_swag_accounts_def
        example_env_def example_config_def init_def register_retriever_def prod_account_def)
  show ?thesis
    using t p
      lookup_pool_launched_unless_arns_given
        [of "Some [''r1'']" example_env "add_field ''access_advisor'' (VList [])" None
            "init 2 example_config"]
      lookup_pool_launched_unless_arns_given
        [of None example_env "add_field ''access_advisor'' (VList [])" None
            "init 2 example_config"]
    by (simp add: init_def)
qed

text \<open>
  C8, as the claim has it, fails when the inventory lists no account: no account is
  queued, and the lookup pool is launched all the same.
\<close>

theorem lookup_pool_launched_with_no_account_queued:
  "account_queue
     (run_begin (example_env\<lparr>swag_get_all := (\<lambda>f. Inr [])\<rparr>)
        (add_field ''access_advisor'' (VList [])) None None (init 2 example_config))
     = \<lparr>items = [], unfinished = 0\<rparr> \<and>
   tasks
     (run_begin (example_env\<lparr>swag_get_all := (\<lambda>f. Inr [])\<rparr>)
        (add_field ''access_advisor'' (VList [])) None None (init 2 example_config))
     = [new_task ArnLookup 0, new_task ArnLookup 1, new_task Retriever 0, new_task Retriever 1,
        new_task Results 0, new_task Results 1]"
  by (simp add: run_begin_def truthy_def queue_all_accounts_def get_swag_accounts_def
      example_env_def example_config_def init_def register_retriever_def Queue_def)

section \<open>Draining the queues\<close>

lemma filter_update_count:
  "i < length ts \<Longrightarrow>
   length (filter Q (ts[i := x])) + (if Q (ts ! i) then 1 else 0)
     = length (filter Q ts) + (if Q x then 1 else 0)"
proof (induction ts arbitrary: i)
  case Nil
  then show ?case by simp
next
  case (Cons t ts)
  show ?case
  proof (cases i)
    case 0
    then show ?thesis by simp
  next
    case (Suc j)
    with Cons.prems have "j < length ts" by simp
    from Cons.IH [OF this] Suc show ?thesis by simp
  qed
qed

lemma in_flight_set_status:
  "i < length (tasks r) \<Longrightarrow>
   in_flight P (set_status i st r) + (if P (status (tasks r ! i)) then 1 else 0)
     = in_flight P r + (if P st then 1 else 0)"
  using filter_update_count [of i "tasks r" "\<lambda>t. P (status t)" "(tasks r ! i)\<lparr>status := st\<rparr>"]
  by (simp add: in_flight_def)

lemma in_flight_queues [simp]:
  "in_flight P (r\<lparr>account_queue := qa\<rparr>) = in_flight P r"
  "in_flight P (r\<lparr>arn_queue := qn\<rparr>) = in_flight P r"
  "in_flight P (r\<lparr>results_queue := qr\<rparr>) = in_flight P r"
  "in_flight P (r\<lparr>failure_queue := qf\<rparr>) = in_flight P r"
  "in_flight P (r\<lparr>failed_arns := fa\<rparr>) = in_flight P r"
  "in_flight P (r\<lparr>persistence := ps\<rparr>) = in_flight P r"
  "in_flight P (r\<lparr>phase := ph\<rparr>) = in_flight P r"
  "in_flight P (r\<lparr>failures_logged := fl\<rparr>) = in_flight P r"
  "in_flight P (put_failure x r) = in_flight P r"
  by (simp_all add: in_flight_def put_failure_def)

lemma in_flight_pos:
  "i < length (tasks r) \<Longrightarrow> P (status (tasks r ! i)) \<Longrightarrow> 0 < in_flight P r"
  by (auto simp: in_flight_def filter_empty_conv intro!: bexI [of _ "tasks r ! i"])

lemma list_ex_cancel_update:
  "list_ex cancel_req (ts[i := (ts ! i)\<lparr>status := st\<rparr>]) = list_ex cancel_req ts"
proof (induction ts arbitrary: i)
  case Nil
  show ?case by simp
next
  case (Cons t ts)
  show ?case
  proof (cases i)
    case 0
    then show ?thesis by simp
  next
    case (Suc j)
    with Cons.IH [of j] show ?thesis by simp
  qed
qed

lemma cancelling_set_status [simp]: "cancelling (set_status i st r) = cancelling r"
  by (simp add: cancelling_def list_ex_cancel_update)

lemma cancelling_queues [simp]:
  "cancelling (r\<lparr>account_queue := qa\<rparr>) = cancelling r"
  "cancelling (r\<lparr>arn_queue := qn\<rparr>) = cancelling r"
  "cancelling (r\<lparr>results_queue := qr\<rparr>) = cancelling r"
  "cancelling (r\<lparr>failure_queue := qf\<rparr>) = cancelling r"
  "cancelling (r\<lparr>failed_arns := fa\<rparr>) = cancelling r"
  "cancelling (r\<lparr>persistence := ps\<rparr>) = cancelling r"
  "cancelling (r\<lparr>phase := ph\<rparr>) = cancelling r"
  "cancelling (r\<lparr>failures_logged := fl\<rparr>) = cancelling r"
  "cancelling (put_failure x r) = cancelling r"
  by (simp_all add: cancelling_def put_failure_def)

lemma account_done_ok:
  "0 < unfinished (account_queue r) \<Longrightarrow>
   account_done i r =
     set_status i Waiting
       (r\<lparr>account_queue := (account_queue r)\<lparr>unfinished := unfinished (account_queue r) - 1\<rparr>\<rparr>)"
  by (simp add: account_done_def q_task_done_def)

lemma arn_done_ok:
  "0 < unfinished (arn_queue r) \<Longrightarrow>
   arn_done i r =
     set_status i Waiting
       (r\<lparr>arn_queue := (arn_queue r)\<lparr>unfinished := unfinished (arn_queue r) - 1\<rparr>\<rparr>)"
  by (simp add: arn_done_def q_task_done_def)

lemma result_done_ok:
  "0 < unfinished (results_queue r) \<Longrightarrow>
   result_done i r =
     set_status i Waiting
       (r\<lparr>results_queue := (results_queue r)\<lparr>unfinished := unfinished (results_queue r) - 1\<rparr>\<rparr>)"
  by (simp add: result_done_def q_task_done_def)

lemma inv_cancelled:
  assumes "inv r" and "i < length (tasks r)"
  shows "inv (set_status i Cancelled r)"
  using assms(1)
    in_flight_set_status [OF assms(2), of is_looking Cancelled]
    in_flight_set_status [OF assms(2), of is_retrieving Cancelled]
    in_flight_set_status [OF assms(2), of is_storing Cancelled]
  by (auto simp: inv_def accounted_def settled_def split: if_splits)

lemma inv_arn_lookup_get:
  assumes "inv r" and "i < length (tasks r)" and "status (tasks r ! i) = Waiting"
    and "arn_lookup_get i r = Some r'"
  shows "inv r'"
proof -
  obtain a rest where it: "items (account_queue r) = a # rest"
    and r': "r' = set_status i (Looking a Conn)
                   (r\<lparr>account_queue := (account_queue r)\<lparr>items := rest\<rparr>\<rparr>)"
    using assms(4) by (auto simp: arn_lookup_get_def q_get_def split: list.splits)
  let ?r = "r\<lparr>account_queue := (account_queue r)\<lparr>items := rest\<rparr>\<rparr>"
  have i: "i < length (tasks ?r)" using assms(2) by simp
  show ?thesis
    using assms(1,3) it
      in_flight_set_status [OF i, of is_looking "Looking a Conn"]
      in_flight_set_status [OF i, of is_retrieving "Looking a Conn"]
      in_flight_set_status [OF i, of is_storing "Looking a Conn"]
    by (auto simp: r' inv_def accounted_def settled_def)
qed

lemma inv_retriever_get:
  assumes "inv r" and "i < length (tasks r)" and "status (tasks r ! i) = Waiting"
    and "retriever_get i r = Some r'"
  shows "inv r'"
proof -
  obtain a rest where it: "items (arn_queue r) = a # rest"
    and r': "r' = set_status i (Retrieving a)
                   (r\<lparr>arn_queue := (arn_queue r)\<lparr>items := rest\<rparr>\<rparr>)"
    using assms(4) by (auto simp: retriever_get_def q_get_def split: list.splits)
  let ?r = "r\<lparr>arn_queue := (arn_queue r)\<lparr>items := rest\<rparr>\<rparr>"
  have i: "i < length (tasks ?r)" using assms(2) by simp
  show ?thesis
    using assms(1,3) it
      in_flight_set_status [OF i, of is_looking "Retrieving a"]
      in_flight_set_status [OF i, of is_retrieving "Retrieving a"]
      in_flight_set_status [OF i, of is_storing "Retrieving a"]
    by (auto simp: r' inv_def accounted_def settled_def)
qed

lemma inv_results_get:
  assumes "inv r" and "i < length (tasks r)" and "status (tasks r ! i) = Waiting"
    and "results_get i r = Some r'"
  shows "inv r'"
proof -
  obtain d rest where it: "items (results_queue r) = d # rest"
    using assms(4) by (auto simp: results_get_def q_get_def split: list.splits)
  let ?r = "r\<lparr>results_queue := (results_queue r)\<lparr>items := rest\<rparr>\<rparr>"
  have i: "i < length (tasks ?r)" using assms(2) by simp
  have pos: "0 < unfinished (results_queue r)"
    using assms(1) it by (simp add: inv_def accounted_def)
  consider (crash) "r' = set_status i (Crashed (KeyError ''arn'')) ?r"
    | (fail) "r' = result_done i (put_failure (FData d) ?r)"
    | (store) w where "r' = set_status i (Storing w d) ?r"
    using assms(4) it
    by (auto simp: results_get_def q_get_def split: option.splits sum.splits)
  then show ?thesis
  proof cases
    case crash
    show ?thesis
      using assms(1,3) it
        in_flight_set_status [OF i, of is_looking "Crashed (KeyError ''arn'')"]
        in_flight_set_status [OF i, of is_retrieving "Crashed (KeyError ''arn'')"]
        in_flight_set_status [OF i, of is_storing "Crashed (KeyError ''arn'')"]
      by (auto simp: crash inv_def accounted_def settled_def)
  next
    case fail
    let ?f = "put_failure (FData d) ?r"
    have r': "r' = set_status i Waiting
        (?f\<lparr>results_queue := (results_queue ?f)\<lparr>unfinished := unfinished (results_queue ?f) - 1\<rparr>\<rparr>)"
      using pos by (simp add: fail result_done_ok)
    let ?g = "?f\<lparr>results_queue := (results_queue ?f)\<lparr>unfinished := unfinished (results_queue ?f) - 1\<rparr>\<rparr>"
    have j: "i < length (tasks ?g)" using assms(2) by simp
    show ?thesis
      using assms(1,3) it pos
        in_flight_set_status [OF j, of is_looking Waiting]
        in_flight_set_status [OF j, of is_retrieving Waiting]
        in_flight_set_status [OF j, of is_storing Waiting]
      by (auto simp: r' inv_def accounted_def settled_def)
  next
    case store
    show ?thesis
      using assms(1,3) it
        in_flight_set_status [OF i, of is_looking "Storing w d"]
        in_flight_set_status [OF i, of is_retrieving "Storing w d"]
        in_flight_set_status [OF i, of is_storing "Storing w d"]
      by (auto simp: store inv_def accounted_def settled_def)
  qed
qed

lemma inv_results_resume:
  assumes "inv r" and "i < length (tasks r)" and "status (tasks r ! i) = Storing w d"
  shows "inv (results_resume env i w d r)"
proof -
  have "0 < in_flight is_storing r"
    using assms(2,3) by (simp add: in_flight_pos)
  then have pos: "0 < unfinished (results_queue r)"
    using assms(1) by (simp add: inv_def accounted_def)
  let ?f = "\<lambda>r0. set_status i Waiting
        (r0\<lparr>results_queue := (results_queue r0)\<lparr>unfinished := unfinished (results_queue r0) - 1\<rparr>\<rparr>)"
  let ?p = "r\<lparr>persistence := persistence r @ [w]\<rparr>"
  have cases: "results_resume env i w d r = ?f (put_failure (FData d) ?p) \<or>
               results_resume env i w d r = ?f ?p"
    using pos by (simp add: results_resume_def result_done_ok split: option.splits)
  let ?g1 = "(put_failure (FData d) ?p)\<lparr>results_queue := (results_queue (put_failure (FData d) ?p))\<lparr>unfinished := unfinished (results_queue (put_failure (FData d) ?p)) - 1\<rparr>\<rparr>"
  let ?g2 = "?p\<lparr>results_queue := (results_queue ?p)\<lparr>unfinished := unfinished (results_queue ?p) - 1\<rparr>\<rparr>"
  have j1: "i < length (tasks ?g1)" and j2: "i < length (tasks ?g2)" using assms(2) by simp_all
  from cases show ?thesis
  proof
    assume e: "results_resume env i w d r = ?f (put_failure (FData d) ?p)"
    show ?thesis
      using assms(1,3) pos
        in_flight_set_status [OF j1, of is_looking Waiting]
        in_flight_set_status [OF j1, of is_retrieving Waiting]
        in_flight_set_status [OF j1, of is_storing Waiting]
      by (auto simp: e inv_def accounted_def settled_def)
  next
    assume e: "results_resume env i w d r = ?f ?p"
    show ?thesis
      using assms(1,3) pos
        in_flight_set_status [OF j2, of is_looking Waiting]
        in_flight_set_status [OF j2, of is_retrieving Waiting]
        in_flight_set_status [OF j2, of is_storing Waiting]
      by (auto simp: e inv_def accounted_def settled_def)
  qed
qed

lemma inv_retriever_resume:
  assumes "inv r" and "i < length (tasks r)" and "status (tasks r ! i) = Retrieving arn"
  shows "inv (retriever_resume i arn r)"
proof -
  have "0 < in_flight is_retrieving r"
    using assms(2,3) by (simp add: in_flight_pos)
  then have pos: "0 < unfinished (arn_queue r)"
    using assms(1) by (simp add: inv_def accounted_def)
  then have early: "rank (phase r) < 3"
    using assms(1) by (auto simp: inv_def settled_def)
  let ?f = "\<lambda>r0. set_status i Waiting
        (r0\<lparr>arn_queue := (arn_queue r0)\<lparr>unfinished := unfinished (arn_queue r0) - 1\<rparr>\<rparr>)"
  let ?a = "put_failure (FStr arn) (r\<lparr>failed_arns := failed_arns r @ [arn]\<rparr>)"
  show ?thesis
  proof (cases "run_retrievers (retrievers r) arn")
    case (Inl e)
    let ?g = "?a\<lparr>arn_queue := (arn_queue ?a)\<lparr>unfinished := unfinished (arn_queue ?a) - 1\<rparr>\<rparr>"
    have e: "retriever_resume i arn r = ?f ?a"
      using pos Inl by (simp add: retriever_resume_def arn_done_ok)
    have j: "i < length (tasks ?g)" using assms(2) by simp
    show ?thesis
      using assms(1,3) pos early
        in_flight_set_status [OF j, of is_looking Waiting]
        in_flight_set_status [OF j, of is_retrieving Waiting]
        in_flight_set_status [OF j, of is_storing Waiting]
      by (auto simp: e inv_def accounted_def settled_def)
  next
    case (Inr d)
    let ?b = "r\<lparr>results_queue := q_put (results_queue r) d\<rparr>"
    let ?g = "?b\<lparr>arn_queue := (arn_queue ?b)\<lparr>unfinished := unfinished (arn_queue ?b) - 1\<rparr>\<rparr>"
    have e: "retriever_resume i arn r = ?f ?b"
      using pos Inr by (simp add: retriever_resume_def arn_done_ok)
    have j: "i < length (tasks ?g)" using assms(2) by simp
    show ?thesis
      using assms(1,3) pos early
        in_flight_set_status [OF j, of is_looking Waiting]
        in_flight_set_status [OF j, of is_retrieving Waiting]
        in_flight_set_status [OF j, of is_storing Waiting]
      by (auto simp: e inv_def accounted_def settled_def)
  qed
qed

lemma inv_arn_lookup_resume:
  assumes "inv r" and "i < length (tasks r)" and "status (tasks r ! i) = Looking account st"
  shows "inv (arn_lookup_resume env i account st r)"
proof -
  have "0 < in_flight is_looking r"
    using assms(2,3) by (simp add: in_flight_pos)
  then have pos: "0 < unfinished (account_queue r)"
    using assms(1) by (simp add: inv_def accounted_def)
  then have early: "rank (phase r) < 2"
    using assms(1) by (auto simp: inv_def settled_def)
  obtain res q where call: "lookup_call env account st (arn_queue r) = (res, q)"
    by (cases "lookup_call env account st (arn_queue r)")
  then obtain xs where q: "items q = items (arn_queue r) @ xs"
      "unfinished q = unfinished (arn_queue r) + length xs"
    using lookup_call_appended [OF call] by (auto simp: appended_def)
  let ?f = "\<lambda>r0. set_status i Waiting
        (r0\<lparr>account_queue := (account_queue r0)\<lparr>unfinished := unfinished (account_queue r0) - 1\<rparr>\<rparr>)"
  let ?n = "r\<lparr>arn_queue := q\<rparr>"
  let ?a = "put_failure (FStr account) ?n"
  have "arn_lookup_resume env i account st r = ?f ?a \<or>
        (\<exists>st'. arn_lookup_resume env i account st r = set_status i (Looking account st') ?n) \<or>
        arn_lookup_resume env i account st r = ?f ?n"
    using call pos
    by (cases res; cases "next_stage st") (auto simp: arn_lookup_resume_def account_done_ok)
  then consider (fail) "arn_lookup_resume env i account st r = ?f ?a"
    | (more) st' where "arn_lookup_resume env i account st r = set_status i (Looking account st') ?n"
    | (final) "arn_lookup_resume env i account st r = ?f ?n"
    by blast
  then show ?thesis
  proof cases
    case fail
    let ?g = "?a\<lparr>account_queue := (account_queue ?a)\<lparr>unfinished := unfinished (account_queue ?a) - 1\<rparr>\<rparr>"
    have j: "i < length (tasks ?g)" using assms(2) by simp
    show ?thesis
      using assms(1,3) pos early q
        in_flight_set_status [OF j, of is_looking Waiting]
        in_flight_set_status [OF j, of is_retrieving Waiting]
        in_flight_set_status [OF j, of is_storing Waiting]
      by (auto simp: fail inv_def accounted_def settled_def)
  next
    case more
    have j: "i < length (tasks ?n)" using assms(2) by simp
    show ?thesis
      using assms(1,3) pos early q
        in_flight_set_status [OF j, of is_looking "Looking account st'"]
        in_flight_set_status [OF j, of is_retrieving "Looking account st'"]
        in_flight_set_status [OF j, of is_storing "Looking account st'"]
      by (auto simp: more inv_def accounted_def settled_def)
  next
    case final
    let ?g = "?n\<lparr>account_queue := (account_queue ?n)\<lparr>unfinished := unfinished (account_queue ?n) - 1\<rparr>\<rparr>"
    have j: "i < length (tasks ?g)" using assms(2) by simp
    show ?thesis
      using assms(1,3) pos early q
        in_flight_set_status [OF j, of is_looking Waiting]
        in_flight_set_status [OF j, of is_retrieving Waiting]
        in_flight_set_status [OF j, of is_storing Waiting]
      by (auto simp: final inv_def accounted_def settled_def)
  qed
qed

lemma cancel_fields [simp]:
  "account_queue (cancel r) = account_queue r"
  "arn_queue (cancel r) = arn_queue r"
  "results_queue (cancel r) = results_queue r"
  "failure_queue (cancel r) = failure_queue r"
  "failures_logged (cancel r) = failures_logged r"
  "persistence (cancel r) = persistence r"
  "phase (cancel r) = phase r"
  "in_flight P (cancel r) = in_flight P r"
  by (simp_all add: cancel_def in_flight_def filter_map o_def)

lemma report_failures_fields [simp]:
  "account_queue (report_failures r) = account_queue r"
  "arn_queue (report_failures r) = arn_queue r"
  "results_queue (report_failures r) = results_queue r"
  "persistence (report_failures r) = persistence r"
  "phase (report_failures r) = phase r"
  "tasks (report_failures r) = tasks r"
  by (simp_all add: report_failures_def split: prod.splits)

lemma in_flight_report_failures [simp]:
  "in_flight P (report_failures r) = in_flight P r"
  by (simp add: in_flight_def)

lemma inv_main_step:
  assumes "inv r" and "main_step r = Some r'"
  shows "inv r'"
proof (cases "phase r")
  case JoinAccounts
  with assms show ?thesis
    by (auto simp: main_step_def q_joined_def inv_def accounted_def settled_def split: if_splits)
next
  case JoinArns
  with assms show ?thesis
    by (auto simp: main_step_def q_joined_def inv_def accounted_def settled_def split: if_splits)
next
  case JoinResults
  with assms show ?thesis
    by (auto simp: main_step_def q_joined_def inv_def accounted_def settled_def split: if_splits)
next
  case Cleanup
  with assms show ?thesis
    by (auto simp: main_step_def inv_def accounted_def settled_def)
next
  case Gather
  with assms show ?thesis
    by (auto simp: main_step_def inv_def accounted_def settled_def split: if_splits)
next
  case Idle
  with assms show ?thesis by (simp add: main_step_def)
next
  case Returned
  with assms show ?thesis by (simp add: main_step_def)
next
  case (Raised e)
  with assms show ?thesis by (simp add: main_step_def)
qed

lemma inv_task_step:
  assumes "inv r" and "task_step env i r = Some r'"
  shows "inv r'"
proof -
  have i: "i < length (tasks r)"
    using assms(2) by (auto simp: task_step_def split: if_splits)
  show ?thesis
  proof (cases "cancel_req (tasks r ! i)")
    case True
    then have "r' = set_status i Cancelled r"
      using assms(2) i by (auto simp: task_step_def split: status.splits)
    with assms(1) i show ?thesis by (simp add: inv_cancelled)
  next
    case False
    show ?thesis
    proof (cases "status (tasks r ! i)")
      case Waiting
      show ?thesis
      proof (cases "kind (tasks r ! i)")
        case ArnLookup
        with assms(2) i False Waiting have "arn_lookup_get i r = Some r'"
          by (simp add: task_step_def)
        with assms(1) i Waiting show ?thesis by (rule inv_arn_lookup_get)
      next
        case Retriever
        with assms(2) i False Waiting have "retriever_get i r = Some r'"
          by (simp add: task_step_def)
        with assms(1) i Waiting show ?thesis by (rule inv_retriever_get)
      next
        case Results
        with assms(2) i False Waiting have "results_get i r = Some r'"
          by (simp add: task_step_def)
        with assms(1) i Waiting show ?thesis by (rule inv_results_get)
      qed
    next
      case (Looking account st)
      with assms(2) i False have "r' = arn_lookup_resume env i account st r"
        by (simp add: task_step_def)
      with assms(1) i Looking show ?thesis by (simp add: inv_arn_lookup_resume)
    next
      case (Retrieving arn)
      with assms(2) i False have "r' = retriever_resume i arn r"
        by (simp add: task_step_def)
      with assms(1) i Retrieving show ?thesis by (simp add: inv_retriever_resume)
    next
      case (Storing w d)
      with assms(2) i False have "r' = results_resume env i w d r"
        by (simp add: task_step_def)
      with assms(1) i Storing show ?thesis by (simp add: inv_results_resume)
    next
      case Cancelled
      with assms(2) i show ?thesis by (simp add: task_step_def)
    next
      case (Crashed e)
      with assms(2) i show ?thesis by (simp add: task_step_def)
    qed
  qed
qed

lemma inv_act: "inv r \<Longrightarrow> act env a r = Some r' \<Longrightarrow> inv r'"
  by (cases a) (auto intro: inv_main_step inv_task_step)

lemma inv_exec: "inv r \<Longrightarrow> exec env as r = Some r' \<Longrightarrow> inv r'"
proof (induction as arbitrary: r)
  case Nil
  then show ?case by simp
next
  case (Cons a as)
  then obtain r1 where a: "act env a r = Some r1" and rest: "exec env as r1 = Some r'"
    by (auto split: option.splits)
  from Cons.prems(1) a have "inv r1" by (rule inv_act)
  then show ?case using rest by (rule Cons.IH)
qed

lemma foldl_q_put_appended: "appended q (foldl q_put q xs)"
proof (induction xs arbitrary: q)
  case Nil
  show ?case by (simp add: appended_refl)
next
  case (Cons x xs)
  have "appended (q_put q x) (foldl q_put (q_put q x) xs)" by (rule Cons.IH)
  with appended_put have "appended q (foldl q_put (q_put q x) xs)" by (rule appended_trans)
  then show ?case by simp
qed

lemma put_account_ids_appended: "put_account_ids accs q = (res, q') \<Longrightarrow> appended q q'"
proof (induction accs arbitrary: q)
  case Nil
  then show ?case by (simp add: appended_refl)
next
  case (Cons a accs)
  show ?case
  proof (cases "acc_id a")
    case None
    with Cons.prems show ?thesis by (simp add: appended_refl)
  next
    case (Some x)
    with Cons.prems have "put_account_ids accs (q_put q x) = (res, q')" by simp
    then have "appended (q_put q x) q'" by (rule Cons.IH)
    with appended_put show ?thesis by (rule appended_trans)
  qed
qed

lemma queue_account_ids_appended:
  "queue_account_ids i accounts q = (accounts', q') \<Longrightarrow> appended q q'"
proof (induction i accounts q rule: queue_account_ids.induct)
  case (1 i accounts q)
  show ?case
  proof (cases "i < length accounts")
    case False
    with "1.prems" show ?thesis by (simp add: appended_refl)
  next
    case True
    show ?thesis
    proof (cases "re_account_id_match (accounts ! i)")
      case m: True
      with True "1.prems"
      have "queue_account_ids (Suc i) (remove1 (accounts ! i) accounts) (q_put q (accounts ! i))
              = (accounts', q')"
        by (simp del: queue_account_ids.simps add: queue_account_ids.simps [of i])
      with "1.IH"(1) True m have "appended (q_put q (accounts ! i)) q'" by simp
      with appended_put show ?thesis by (rule appended_trans)
    next
      case m: False
      with True "1.prems"
      have "queue_account_ids (Suc i) accounts q = (accounts', q')"
        by (simp del: queue_account_ids.simps add: queue_account_ids.simps [of i])
      with "1.IH"(2) True m show ?thesis by simp
    qed
  qed
qed

lemma queue_aliases_appended:
  "queue_aliases accounts a als q = (res, q') \<Longrightarrow> appended q q'"
proof (induction als arbitrary: q)
  case Nil
  then show ?case by (simp add: appended_refl)
next
  case (Cons al als)
  show ?case
  proof (cases "al \<in> set accounts")
    case False
    with Cons.prems have "queue_aliases accounts a als q = (res, q')" by simp
    then show ?thesis by (rule Cons.IH)
  next
    case True
    show ?thesis
    proof (cases "acc_id a")
      case None
      with True Cons.prems show ?thesis by (simp add: appended_refl)
    next
      case (Some x)
      with True Cons.prems have "queue_aliases accounts a als (q_put q x) = (res, q')" by simp
      then have "appended (q_put q x) q'" by (rule Cons.IH)
      with appended_put show ?thesis by (rule appended_trans)
    qed
  qed
qed

lemma queue_matching_appended:
  "queue_matching accounts accs q = (res, q') \<Longrightarrow> appended q q'"
proof (induction accs arbitrary: q)
  case Nil
  then show ?case by (simp add: appended_refl)
next
  case (Cons a accs)
  show ?case
  proof (cases "name_in (acc_name a) accounts")
    case True
    show ?thesis
    proof (cases "acc_id a")
      case None
      with True Cons.prems show ?thesis by (simp add: appended_refl)
    next
      case (Some x)
      with True Cons.prems have "queue_matching accounts accs (q_put q x) = (res, q')" by simp
      then have "appended (q_put q x) q'" by (rule Cons.IH)
      with appended_put show ?thesis by (rule appended_trans)
    qed
  next
    case False
    show ?thesis
    proof (cases "schemaVersion a")
      case None
      with False Cons.prems show ?thesis by (simp add: appended_refl)
    next
      case (Some v)
      obtain r1 q1 where al: "queue_aliases accounts a (alias_list a v) q = (r1, q1)"
        by (cases "queue_aliases accounts a (alias_list a v) q")
      then have a1: "appended q q1" by (rule queue_aliases_appended)
      show ?thesis
      proof (cases r1)
        case None
        with False Some al Cons.prems have "queue_matching accounts accs q1 = (res, q')" by simp
        then have "appended q1 q'" by (rule Cons.IH)
        with a1 show ?thesis by (rule appended_trans)
      next
        case e: (Some e)
        with False Some al Cons.prems have "q' = q1" by simp
        with a1 show ?thesis by simp
      qed
    qed
  qed
qed

lemma queue_accounts_appended:
  "queue_accounts env cfg names q = (res, q') \<Longrightarrow> appended q q'"
proof -
  assume a: "queue_accounts env cfg names q = (res, q')"
  obtain accounts q1 where ids: "queue_account_ids 0 names q = (accounts, q1)"
    by (cases "queue_account_ids 0 names q")
  then have a1: "appended q q1" by (rule queue_account_ids_appended)
  show ?thesis
  proof (cases "get_swag_accounts env cfg")
    case (Inl e)
    with a ids have "q' = q1" by (simp add: queue_accounts_def)
    with a1 show ?thesis by simp
  next
    case (Inr accs)
    with a ids have "queue_matching accounts accs q1 = (res, q')"
      by (simp add: queue_accounts_def)
    then have "appended q1 q'" by (rule queue_matching_appended)
    with a1 show ?thesis by (rule appended_trans)
  qed
qed

lemma queue_all_accounts_appended:
  "queue_all_accounts env cfg q = (res, q') \<Longrightarrow> appended q q'"
  by (auto simp: queue_all_accounts_def appended_refl split: sum.splits
      dest: put_account_ids_appended)

lemma appended_Queue: "appended Queue q \<Longrightarrow> length (items q) = unfinished q"
  by (auto simp: appended_def Queue_def)

lemma pool_waiting: "list_all (\<lambda>t. status t = Waiting \<and> \<not> cancel_req t) (pool k n)"
  by (simp add: pool_def list_all_iff new_task_def)

lemma run_begin_tasks_waiting:
  assumes "tasks r0 = []"
  shows "list_all (\<lambda>t. status t = Waiting \<and> \<not> cancel_req t)
           (tasks (run_begin env aa accounts arns r0))"
proof (cases "truthy arns")
  case True
  then show ?thesis
    using run_begin_arns [of arns env aa accounts r0] assms by (simp add: pool_waiting)
next
  case False
  then show ?thesis
    using run_begin_no_arns [of arns env aa accounts r0] assms by (auto simp: pool_waiting)
qed

lemma waiting_not_in_flight:
  "list_all (\<lambda>t. status t = Waiting \<and> \<not> cancel_req t) (tasks r) \<Longrightarrow>
   in_flight is_looking r = 0 \<and> in_flight is_retrieving r = 0 \<and> in_flight is_storing r = 0 \<and>
   \<not> cancelling r"
  by (auto simp: in_flight_def cancelling_def list_all_iff list_ex_iff filter_empty_conv)

lemma Queue_fields [simp]: "items Queue = []" "unfinished Queue = 0"
  by (simp_all add: Queue_def)

lemma run_begin_seeded:
  assumes "\<not> truthy arns"
    and "(if truthy accounts
          then queue_accounts env (swag_config r0) (list_of accounts) Queue
          else queue_all_accounts env (swag_config r0) Queue) = (res, q)"
  shows "account_queue (run_begin env aa accounts arns r0) = q \<and>
         arn_queue (run_begin env aa accounts arns r0) = Queue \<and>
         results_queue (run_begin env aa accounts arns r0) = Queue"
proof (cases "truthy accounts")
  case True
  with assms have "queue_accounts env (swag_config r0) (list_of accounts) Queue = (res, q)"
    by simp
  with assms(1) True show ?thesis
    by (cases res) (simp_all add: run_begin_def Let_def)
next
  case False
  with assms have "queue_all_accounts env (swag_config r0) Queue = (res, q)"
    by simp
  with assms(1) False show ?thesis
    by (cases res) (simp_all add: run_begin_def Let_def)
qed

lemma run_begin_queues:
  "length (items (account_queue (run_begin env aa accounts arns r0)))
     = unfinished (account_queue (run_begin env aa accounts arns r0)) \<and>
   length (items (arn_queue (run_begin env aa accounts arns r0)))
     = unfinished (arn_queue (run_begin env aa accounts arns r0)) \<and>
   length (items (results_queue (run_begin env aa accounts arns r0)))
     = unfinished (results_queue (run_begin env aa accounts arns r0))"
proof (cases "truthy arns")
  case True
  have "length (items (queue_arns (list_of arns) Queue)) = unfinished (queue_arns (list_of arns) Queue)"
    unfolding queue_arns_def by (rule appended_Queue) (rule foldl_q_put_appended)
  with True show ?thesis
    by (simp add: run_begin_def Let_def)
next
  case False
  let ?seed = "if truthy accounts
       then queue_accounts env (swag_config r0) (list_of accounts) Queue
       else queue_all_accounts env (swag_config r0) Queue"
  obtain res q where s: "?seed = (res, q)" by (cases ?seed)
  then have "appended Queue q"
    by (auto split: if_splits dest: queue_accounts_appended queue_all_accounts_appended)
  then have "length (items q) = unfinished q" by (rule appended_Queue)
  with run_begin_seeded [OF False s, of aa] show ?thesis by simp
qed

lemma run_begin_rank: "rank (phase (run_begin env aa accounts arns r0)) \<le> 1"
  by (auto simp: run_begin_def Let_def split: prod.splits option.splits)

lemma inv_run_begin:
  assumes "tasks r0 = []"
  shows "inv (run_begin env aa accounts arns r0)"
  using run_begin_queues [of env aa accounts arns r0]
    run_begin_rank [of env aa accounts arns r0]
    waiting_not_in_flight [OF run_begin_tasks_waiting [OF assms, of env aa accounts arns]]
  by (simp add: inv_def accounted_def settled_def)

lemma inv_drained:
  "inv r \<Longrightarrow>
   (2 \<le> rank (phase r) \<longrightarrow> drained (account_queue r) \<and> in_flight is_looking r = 0) \<and>
   (3 \<le> rank (phase r) \<longrightarrow> drained (arn_queue r) \<and> in_flight is_retrieving r = 0) \<and>
   (4 \<le> rank (phase r) \<longrightarrow> drained (results_queue r) \<and> in_flight is_storing r = 0) \<and>
   (cancelling r \<longrightarrow> 5 \<le> rank (phase r))"
  by (auto simp: inv_def accounted_def settled_def drained_def)

text \<open>
  C9. Take any execution from the point where \<^verbatim>\<open>run\<close>, called on a runner without
  tasks, has launched its workers. Once \<^verbatim>\<open>run\<close> has passed the \<^verbatim>\<open>join\<close> of the account
  queue, that queue has no pending item, no item in flight and a counter of zero, and
  this stays so; likewise for the ARN queue after the second \<^verbatim>\<open>join\<close> and for the
  results queue after the third. The \<^verbatim>\<open>join\<close>s are passed in that order. A cancellation
  is requested only in the clean-up, after the third \<^verbatim>\<open>join\<close>, and when \<^verbatim>\<open>run\<close> has
  returned all three queues are drained.
\<close>

theorem run_returns_after_queues_drained:
  assumes "tasks r0 = []"
    and "reachable env (run_begin env aa accounts arns r0) r"
  shows "(2 \<le> rank (phase r) \<longrightarrow> drained (account_queue r) \<and> in_flight is_looking r = 0) \<and>
         (3 \<le> rank (phase r) \<longrightarrow> drained (arn_queue r) \<and> in_flight is_retrieving r = 0) \<and>
         (4 \<le> rank (phase r) \<longrightarrow> drained (results_queue r) \<and> in_flight is_storing r = 0) \<and>
         (cancelling r \<longrightarrow> 5 \<le> rank (phase r)) \<and>
         (phase r = Returned \<longrightarrow>
            drained (account_queue r) \<and> drained (arn_queue r) \<and> drained (results_queue r))"
proof -
  from assms(2) obtain as where "exec env as (run_begin env aa accounts arns r0) = Some r"
    by (auto simp: reachable_def)
  with inv_run_begin [OF assms(1)] have "inv r" by (rule inv_exec)
  from inv_drained [OF this] show ?thesis by auto
qed

lemma pool_1 [simp]: "pool k 1 = [new_task k 0]"
  by (simp add: pool_def)

lemma example_start_eq:
  "example_start =
     \<lparr>retrievers = [add_field ''access_advisor'' (VList [])],
      account_queue = \<lparr>items = [], unfinished = 0\<rparr>,
      arn_queue = \<lparr>items = [''r1''], unfinished = 1\<rparr>,
      results_queue = \<lparr>items = [], unfinished = 0\<rparr>,
      failure_queue = \<lparr>items = [], unfinished = 0\<rparr>,
      failed_arns = [], tasks = [new_task Retriever 0, new_task Results 0], num_workers = 1,
      swag_config = example_config, persistence = [], phase = JoinAccounts,
      failures_logged = []\<rparr>"
  by (simp add: example_start_def run_begin_def truthy_def list_of_def init_def
      register_retriever_def queue_arns_def q_put_def Queue_def launch_workers_def
      create_tasks_def pool_def [symmetric])

lemma example_run:
  "map_option phase (exec example_env example_schedule example_start) = Some Returned \<and>
   map_option persistence (exec example_env example_schedule example_start)
     = Some [[(VStr ''r1'', VList [])]]"
  by (simp add: example_start_eq example_schedule_def main_step_def task_step_def
      q_joined_def new_task_def retriever_get_def retriever_resume_def results_get_def
      results_resume_def q_get_def q_put_def q_task_done_def set_status_def arn_done_def
      result_done_def run_retrievers_def add_field_def role_data_of_def example_env_def
      cancel_def report_failures_def)

theorem run_returns_after_queues_drained_witness:
  "\<exists>r. reachable example_env example_start r \<and> phase r = Returned \<and>
       drained (account_queue r) \<and> drained (arn_queue r) \<and> drained (results_queue r) \<and>
       persistence r = [[(VStr ''r1'', VList [])]]"
proof -
  from example_run obtain r where e: "exec example_env example_schedule example_start = Some r"
    and ph: "phase r = Returned" and ps: "persistence r = [[(VStr ''r1'', VList [])]]"
    by auto
  have reach: "reachable example_env example_start r"
    unfolding reachable_def using e by blast
  have t: "tasks (init 1 example_config) = []"
    by (simp add: init_def)
  from run_returns_after_queues_drained
         [OF t, of example_env "add_field ''access_advisor'' (VList [])" None "Some [''r1'']" r]
       reach ph
  have "drained (account_queue r) \<and> drained (arn_queue r) \<and> drained (results_queue r)"
    by (simp add: example_start_def)
  with reach ph ps show ?thesis by blast
qed

section \<open>Failures are reported, not raised\<close>

lemma arn_done_fields [simp]:
  "retrievers (arn_done i r) = retrievers r"
  "account_queue (arn_done i r) = account_queue r"
  "items (arn_queue (arn_done i r)) = items (arn_queue r)"
  "unfinished (arn_queue (arn_done i r)) = unfinished (arn_queue r) - 1"
  "results_queue (arn_done i r) = results_queue r"
  "failure_queue (arn_done i r) = failure_queue r"
  "failed_arns (arn_done i r) = failed_arns r"
  "persistence (arn_done i r) = persistence r"
  "phase (arn_done i r) = phase r"
  "failures_logged (arn_done i r) = failures_logged r"
  by (simp_all add: arn_done_def q_task_done_def)

lemma map_cancel_update [simp]:
  "map cancel_req (ts[i := (ts ! i)\<lparr>status := st\<rparr>]) = map cancel_req ts"
proof (induction ts arbitrary: i)
  case Nil
  show ?case by simp
next
  case (Cons t ts)
  show ?case
  proof (cases i)
    case 0
    then show ?thesis by simp
  next
    case (Suc j)
    with Cons.IH [of j] show ?thesis by simp
  qed
qed

lemma cancel_flags [simp]:
  "map cancel_req (tasks (set_status i st r)) = map cancel_req (tasks r)"
  "map cancel_req (tasks (account_done i r)) = map cancel_req (tasks r)"
  "map cancel_req (tasks (arn_done i r)) = map cancel_req (tasks r)"
  "map cancel_req (tasks (result_done i r)) = map cancel_req (tasks r)"
  by (simp_all add: account_done_def arn_done_def result_done_def
      split: sum.splits)

lemma quiet_set_status: "quiet r (set_status i st r)"
  by (simp add: quiet_def)

lemma quiet_arn_lookup_get: "arn_lookup_get i r = Some r' \<Longrightarrow> quiet r r'"
  by (auto simp: arn_lookup_get_def quiet_def split: option.splits)

lemma quiet_retriever_get: "retriever_get i r = Some r' \<Longrightarrow> quiet r r'"
  by (auto simp: retriever_get_def quiet_def split: option.splits)

lemma quiet_results_get: "results_get i r = Some r' \<Longrightarrow> quiet r r'"
  by (auto simp: results_get_def quiet_def split: option.splits sum.splits)

lemma quiet_arn_lookup_resume: "quiet r (arn_lookup_resume env i account st r)"
  by (cases "lookup_call env account st (arn_queue r)")
     (auto simp: arn_lookup_resume_def quiet_def split: option.splits)

lemma quiet_retriever_resume: "quiet r (retriever_resume i arn r)"
  by (auto simp: retriever_resume_def quiet_def split: sum.splits)

lemma quiet_results_resume: "quiet r (results_resume env i w d r)"
  by (auto simp: results_resume_def quiet_def split: option.splits)

lemma quiet_task_step:
  assumes "task_step env i r = Some r'"
  shows "quiet r r'"
proof -
  have i: "i < length (tasks r)"
    using assms by (auto simp: task_step_def split: if_splits)
  show ?thesis
  proof (cases "cancel_req (tasks r ! i)")
    case True
    then have "r' = set_status i Cancelled r"
      using assms i by (auto simp: task_step_def split: status.splits)
    then show ?thesis by (simp add: quiet_set_status)
  next
    case False
    show ?thesis
    proof (cases "status (tasks r ! i)")
      case Waiting
      with assms i False show ?thesis
        by (cases "kind (tasks r ! i)")
           (simp_all add: task_step_def quiet_arn_lookup_get quiet_retriever_get
              quiet_results_get)
    next
      case (Looking account st)
      with assms i False show ?thesis
        by (auto simp: task_step_def quiet_arn_lookup_resume)
    next
      case (Retrieving arn)
      with assms i False show ?thesis
        by (auto simp: task_step_def quiet_retriever_resume)
    next
      case (Storing w d)
      with assms i False show ?thesis
        by (auto simp: task_step_def quiet_results_resume)
    next
      case Cancelled
      with assms i show ?thesis by (simp add: task_step_def)
    next
      case (Crashed e)
      with assms i show ?thesis by (simp add: task_step_def)
    qed
  qed
qed

lemma cancelled_task_step:
  assumes "task_step env i r = Some r'" and "list_all cancel_req (tasks r)"
  shows "failure_queue r' = failure_queue r"
proof -
  have i: "i < length (tasks r)"
    using assms(1) by (auto simp: task_step_def split: if_splits)
  with assms(2) have "cancel_req (tasks r ! i)" by (simp add: list_all_length)
  then have "r' = set_status i Cancelled r"
    using assms(1) i by (auto simp: task_step_def split: status.splits)
  then show ?thesis by simp
qed

lemma log_failures_all: "log_failures xs logged = ([], logged @ xs)"
  by (induction xs arbitrary: logged) simp_all

lemma report_failures_log [simp]:
  "failures_logged (report_failures r) = failures_logged r @ items (failure_queue r)"
  "items (failure_queue (report_failures r)) = []"
  by (simp_all add: report_failures_def log_failures_all)

lemma cancel_all [simp]: "list_all cancel_req (tasks (cancel r))"
  by (simp add: cancel_def list_all_iff)

lemma list_all_cancel_flags:
  "map cancel_req ts' = map cancel_req ts \<Longrightarrow> list_all cancel_req ts' = list_all cancel_req ts"
proof -
  assume "map cancel_req ts' = map cancel_req ts"
  then have "list_all (\<lambda>b. b) (map cancel_req ts') = list_all (\<lambda>b. b) (map cancel_req ts)"
    by simp
  then show ?thesis by (simp add: list_all_iff)
qed

lemma main_step_cases:
  assumes "main_step r = Some r'"
  shows "(phase r = JoinAccounts \<and> unfinished (account_queue r) = 0 \<and> r' = r\<lparr>phase := JoinArns\<rparr>) \<or>
         (phase r = JoinArns \<and> unfinished (arn_queue r) = 0 \<and> r' = r\<lparr>phase := JoinResults\<rparr>) \<or>
         (phase r = JoinResults \<and> unfinished (results_queue r) = 0 \<and> r' = r\<lparr>phase := Cleanup\<rparr>) \<or>
         (phase r = Cleanup \<and> r' = (report_failures (cancel r))\<lparr>phase := Gather\<rparr>) \<or>
         (phase r = Gather \<and> list_all (\<lambda>t. finished (status t)) (tasks r) \<and>
            r' = r\<lparr>phase := Returned\<rparr>)"
proof (cases "phase r")
  case JoinAccounts
  with assms show ?thesis by (simp add: main_step_def q_joined_def split: if_splits)
next
  case JoinArns
  with assms show ?thesis by (simp add: main_step_def q_joined_def split: if_splits)
next
  case JoinResults
  with assms show ?thesis by (simp add: main_step_def q_joined_def split: if_splits)
next
  case Cleanup
  with assms show ?thesis by (simp add: main_step_def)
next
  case Gather
  with assms show ?thesis by (simp add: main_step_def split: if_splits)
next
  case Idle
  with assms show ?thesis by (simp add: main_step_def)
next
  case Returned
  with assms show ?thesis by (simp add: main_step_def)
next
  case (Raised e)
  with assms show ?thesis by (simp add: main_step_def)
qed

lemma main_step_failures:
  assumes "main_step r = Some r'"
  shows "all_failures r' = all_failures r"
  using main_step_cases [OF assms]
  by (elim disjE conjE) (simp_all add: all_failures_def)

lemma reported_main_step:
  assumes "reported r" and "main_step r = Some r'"
  shows "reported r'"
  using main_step_cases [OF assms(2)] assms(1)
  by (elim disjE conjE) (simp_all add: reported_def)

lemma reported_task_step:
  assumes "reported r" and "task_step env i r = Some r'"
  shows "reported r'"
proof -
  have q: "quiet r r'" using assms(2) by (rule quiet_task_step)
  then have "map cancel_req (tasks r') = map cancel_req (tasks r)"
    by (simp add: quiet_def)
  then have c: "list_all cancel_req (tasks r') = list_all cancel_req (tasks r)"
    by (rule list_all_cancel_flags)
  show ?thesis
  proof (cases "5 \<le> rank (phase r)")
    case True
    with assms(1) have all: "list_all cancel_req (tasks r)" and em: "items (failure_queue r) = []"
      by (simp_all add: reported_def)
    from assms(2) all have "failure_queue r' = failure_queue r" by (rule cancelled_task_step)
    with q c all em assms(1) show ?thesis by (simp add: reported_def quiet_def)
  next
    case False
    with q assms(1) show ?thesis by (simp add: reported_def quiet_def)
  qed
qed

lemma task_step_failures:
  assumes "task_step env i r = Some r'"
  shows "\<exists>xs. all_failures r' = all_failures r @ xs"
  using quiet_task_step [OF assms] by (auto simp: quiet_def all_failures_def)

lemma act_failures:
  assumes "act env a r = Some r'"
  shows "\<exists>xs. all_failures r' = all_failures r @ xs"
proof (cases a)
  case Main
  with assms have "main_step r = Some r'" by simp
  then have "all_failures r' = all_failures r" by (rule main_step_failures)
  then show ?thesis by simp
next
  case (Worker i)
  with assms have "task_step env i r = Some r'" by simp
  then show ?thesis by (rule task_step_failures)
qed

lemma reported_act:
  assumes "reported r" and "act env a r = Some r'"
  shows "reported r'"
proof (cases a)
  case Main
  with assms have "main_step r = Some r'" by simp
  with assms(1) show ?thesis by (rule reported_main_step)
next
  case (Worker i)
  with assms have "task_step env i r = Some r'" by simp
  with assms(1) show ?thesis by (rule reported_task_step)
qed

lemma exec_failures:
  "exec env as r = Some r' \<Longrightarrow> \<exists>xs. all_failures r' = all_failures r @ xs"
proof (induction as arbitrary: r)
  case Nil
  then show ?case by simp
next
  case (Cons a as)
  then obtain r1 where a: "act env a r = Some r1" and rest: "exec env as r1 = Some r'"
    by (auto split: option.splits)
  from act_failures [OF a] obtain xs where "all_failures r1 = all_failures r @ xs" ..
  moreover from Cons.IH [OF rest] obtain ys where "all_failures r' = all_failures r1 @ ys" ..
  ultimately show ?case by simp
qed

lemma reported_exec: "reported r \<Longrightarrow> exec env as r = Some r' \<Longrightarrow> reported r'"
proof (induction as arbitrary: r)
  case Nil
  then show ?case by simp
next
  case (Cons a as)
  then obtain r1 where a: "act env a r = Some r1" and rest: "exec env as r1 = Some r'"
    by (auto split: option.splits)
  from Cons.prems(1) a have "reported r1" by (rule reported_act)
  then show ?case using rest by (rule Cons.IH)
qed

lemma queue_accounts_swag_fails:
  "get_swag_accounts env cfg = Inl e \<Longrightarrow> fst (queue_accounts env cfg names q) = Some e"
  by (cases "queue_account_ids 0 names q") (simp add: queue_accounts_def)

lemma queue_all_accounts_swag_fails:
  "get_swag_accounts env cfg = Inl e \<Longrightarrow> fst (queue_all_accounts env cfg q) = Some e"
  by (simp add: queue_all_accounts_def)

lemma run_begin_swag_fails:
  assumes "\<not> truthy arns" and "get_swag_accounts env (swag_config r0) = Inl e"
  shows "phase (run_begin env aa accounts arns r0) = Raised e \<and>
         tasks (run_begin env aa accounts arns r0) = tasks r0"
proof (cases "truthy accounts")
  case True
  obtain res q where s: "queue_accounts env (swag_config r0) (list_of accounts) Queue = (res, q)"
    by (cases "queue_accounts env (swag_config r0) (list_of accounts) Queue")
  with queue_accounts_swag_fails [OF assms(2), of "list_of accounts" Queue]
  have "res = Some e" by simp
  with assms(1) True s show ?thesis by (simp add: run_begin_def Let_def)
next
  case False
  obtain res q where s: "queue_all_accounts env (swag_config r0) Queue = (res, q)"
    by (cases "queue_all_accounts env (swag_config r0) Queue")
  with queue_all_accounts_swag_fails [OF assms(2), of Queue]
  have "res = Some e" by simp
  with assms(1) False s show ?thesis by (simp add: run_begin_def Let_def)
qed

lemma stuck_no_tasks:
  assumes "tasks r = []" and "main_step r = None"
  shows "stuck env r"
  unfolding stuck_def
proof
  fix a
  show "act env a r = None"
    using assms by (cases a) (simp_all add: task_step_def)
qed

lemma exec_stuck: "stuck env r \<Longrightarrow> exec env as r = Some r' \<Longrightarrow> r' = r"
  by (cases as) (simp_all add: stuck_def)

lemma reported_run_begin:
  "phase (run_begin env aa accounts arns r0) = JoinAccounts \<Longrightarrow>
   reported (run_begin env aa accounts arns r0)"
  by (simp add: reported_def)

text \<open>
  C7, as the code has it. On a runner without tasks: when no ARNs are given and the
  inventory lookup raises, \<^verbatim>\<open>run\<close> raises that exception having created no task, and
  nothing can take a step afterwards. When \<^verbatim>\<open>run\<close> has launched its workers, no
  execution makes it raise; and when it has returned, the failure queue is empty and
  the log holds, in order, every failure item that was logged or queued at any earlier
  point of the execution.
\<close>

theorem failures_are_reported_not_raised:
  assumes "tasks r0 = []"
  shows "(\<not> truthy arns \<and> get_swag_accounts env (swag_config r0) = Inl e \<longrightarrow>
            phase (run_begin env aa accounts arns r0) = Raised e \<and>
            tasks (run_begin env aa accounts arns r0) = [] \<and>
            stuck env (run_begin env aa accounts arns r0) \<and>
            (\<forall>r. reachable env (run_begin env aa accounts arns r0) r \<longrightarrow>
                 r = run_begin env aa accounts arns r0)) \<and>
         (phase (run_begin env aa accounts arns r0) = JoinAccounts \<and>
          reachable env (run_begin env aa accounts arns r0) r1 \<and> reachable env r1 r2 \<longrightarrow>
            (\<forall>x. phase r2 \<noteq> Raised x) \<and>
            (phase r2 = Returned \<longrightarrow>
               items (failure_queue r2) = [] \<and>
               (\<exists>xs. failures_logged r2 = all_failures r1 @ xs)))"
proof (rule conjI)
  let ?r = "run_begin env aa accounts arns r0"
  show "\<not> truthy arns \<and> get_swag_accounts env (swag_config r0) = Inl e \<longrightarrow>
          phase ?r = Raised e \<and> tasks ?r = [] \<and> stuck env ?r \<and>
          (\<forall>r. reachable env ?r r \<longrightarrow> r = ?r)"
  proof
    assume a: "\<not> truthy arns \<and> get_swag_accounts env (swag_config r0) = Inl e"
    from a have f: "phase ?r = Raised e \<and> tasks ?r = tasks r0"
      using run_begin_swag_fails [of arns env r0 e aa accounts] by blast
    from f assms have t: "tasks ?r = []" by simp
    from f have "main_step ?r = None" by (simp add: main_step_def)
    with t have s: "stuck env ?r" by (rule stuck_no_tasks)
    have "\<forall>r. reachable env ?r r \<longrightarrow> r = ?r"
      using s by (auto simp: reachable_def dest: exec_stuck)
    with f t s show "phase ?r = Raised e \<and> tasks ?r = [] \<and> stuck env ?r \<and>
          (\<forall>r. reachable env ?r r \<longrightarrow> r = ?r)"
      by blast
  qed
next
  let ?r = "run_begin env aa accounts arns r0"
  show "phase ?r = JoinAccounts \<and> reachable env ?r r1 \<and> reachable env r1 r2 \<longrightarrow>
          (\<forall>x. phase r2 \<noteq> Raised x) \<and>
          (phase r2 = Returned \<longrightarrow>
             items (failure_queue r2) = [] \<and> (\<exists>xs. failures_logged r2 = all_failures r1 @ xs))"
  proof
    assume b: "phase ?r = JoinAccounts \<and> reachable env ?r r1 \<and> reachable env r1 r2"
    from b obtain as bs where e1: "exec env as ?r = Some r1" and e2: "exec env bs r1 = Some r2"
      by (auto simp: reachable_def)
    from b have "reported ?r" by (simp add: reported_run_begin)
    then have "reported r1" using e1 by (rule reported_exec)
    then have rep: "reported r2" using e2 by (rule reported_exec)
    then have nr: "\<forall>x. phase r2 \<noteq> Raised x" by (auto simp: reported_def)
    have "phase r2 = Returned \<longrightarrow>
            items (failure_queue r2) = [] \<and> (\<exists>xs. failures_logged r2 = all_failures r1 @ xs)"
    proof
      assume ret: "phase r2 = Returned"
      with rep have em: "items (failure_queue r2) = []" by (simp add: reported_def)
      from exec_failures [OF e2] obtain xs where "all_failures r2 = all_failures r1 @ xs" ..
      with em have "failures_logged r2 = all_failures r1 @ xs" by (simp add: all_failures_def)
      with em show "items (failure_queue r2) = [] \<and>
                    (\<exists>xs. failures_logged r2 = all_failures r1 @ xs)"
        by blast
    qed
    with nr show "(\<forall>x. phase r2 \<noteq> Raised x) \<and>
          (phase r2 = Returned \<longrightarrow>
             items (failure_queue r2) = [] \<and> (\<exists>xs. failures_logged r2 = all_failures r1 @ xs))"
      by blast
  qed
qed

lemma exec_append:
  "exec env (as @ bs) r = (case exec env as r of None \<Rightarrow> None | Some r' \<Rightarrow> exec env bs r')"
  by (induction as arbitrary: r) (simp_all split: option.splits)

lemma failing_start_eq:
  "failing_start =
     \<lparr>retrievers = [failing (OtherError ''boom'')],
      account_queue = \<lparr>items = [], unfinished = 0\<rparr>,
      arn_queue = \<lparr>items = [''r1''], unfinished = 1\<rparr>,
      results_queue = \<lparr>items = [], unfinished = 0\<rparr>,
      failure_queue = \<lparr>items = [], unfinished = 0\<rparr>,
      failed_arns = [], tasks = [new_task Retriever 0, new_task Results 0], num_workers = 1,
      swag_config = example_config, persistence = [], phase = JoinAccounts,
      failures_logged = []\<rparr>"
  by (simp add: failing_start_def run_begin_def truthy_def list_of_def init_def
      register_retriever_def queue_arns_def q_put_def Queue_def launch_workers_def
      create_tasks_def pool_def [symmetric])

lemma failing_run:
  "map_option all_failures (exec example_env failing_schedule failing_start)
     = Some [FStr ''r1''] \<and>
   map_option phase (exec example_env (failing_schedule @ reporting_schedule) failing_start)
     = Some Returned \<and>
   map_option failures_logged
     (exec example_env (failing_schedule @ reporting_schedule) failing_start)
     = Some [FStr ''r1'']"
  by (simp add: failing_start_eq failing_schedule_def reporting_schedule_def main_step_def
      task_step_def q_joined_def new_task_def retriever_get_def retriever_resume_def
      q_get_def q_put_def q_task_done_def set_status_def arn_done_def put_failure_def
      run_retrievers_def failing_def cancel_def report_failures_def all_failures_def)

theorem failures_are_reported_not_raised_witness:
  "phase (run_begin unavailable_env (add_field ''access_advisor'' (VList [])) (Some [''prod''])
            None (init 1 example_config))
     = Raised (RetrieverException (Some ''could not retrieve SWAG data'') (Some ClientError)) \<and>
   tasks (run_begin unavailable_env (add_field ''access_advisor'' (VList [])) (Some [''prod''])
            None (init 1 example_config)) = [] \<and>
   (\<exists>r1 r2. reachable example_env failing_start r1 \<and> reachable example_env r1 r2 \<and>
        all_failures r1 = [FStr ''r1''] \<and> phase r2 = Returned \<and>
        items (failure_queue r2) = [] \<and> failures_logged r2 = [FStr ''r1''])"
proof -
  have t: "tasks (init 1 example_config) = []"
    by (simp add: init_def)
  have na: "\<not> truthy (None :: string list option)"
    by (simp add: truthy_def)
  have sw: "get_swag_accounts unavailable_env (swag_config (init 1 example_config))
      = Inl (RetrieverException (Some ''could not retrieve SWAG data'') (Some ClientError))"
    by (simp add: get_swag_accounts_def unavailable_env_def example_env_def init_def
        example_config_def)
  from failing_run obtain r1 r2
    where e1: "exec example_env failing_schedule failing_start = Some r1"
      and f1: "all_failures r1 = [FStr ''r1'']"
      and e2: "exec example_env (failing_schedule @ reporting_schedule) failing_start = Some r2"
      and ph: "phase r2 = Returned" and lg: "failures_logged r2 = [FStr ''r1'']"
    by auto
  from e1 e2 have e3: "exec example_env reporting_schedule r1 = Some r2"
    by (simp add: exec_append)
  have re1: "reachable example_env failing_start r1"
    unfolding reachable_def using e1 by blast
  have re2: "reachable example_env r1 r2"
    unfolding reachable_def using e3 by blast
  have st: "phase failing_start = JoinAccounts"
    by (simp add: failing_start_eq)
  from failures_are_reported_not_raised
         [OF t, of None unavailable_env
            "RetrieverException (Some ''could not retrieve SWAG data'') (Some ClientError)"
            "add_field ''access_advisor'' (VList [])" "Some [''prod'']"] na sw
  have first: "phase (run_begin unavailable_env (add_field ''access_advisor'' (VList []))
                 (Some [''prod'']) None (init 1 example_config))
     = Raised (RetrieverException (Some ''could not retrieve SWAG data'') (Some ClientError)) \<and>
   tasks (run_begin unavailable_env (add_field ''access_advisor'' (VList [])) (Some [''prod''])
            None (init 1 example_config)) = []"
    by blast
  from failures_are_reported_not_raised
         [OF t, of "Some [''r1'']" example_env _ "failing (OtherError ''boom'')" None r1 r2]
       st re1 re2 ph
  have "items (failure_queue r2) = []"
    by (simp add: failing_start_def)
  with first re1 re2 f1 ph lg show ?thesis by blast
qed

lemma stuck_iff:
  "stuck env r =
     (main_step r = None \<and> list_all (\<lambda>i. task_step env i r = None) [0..<length (tasks r)])"
proof
  assume s: "stuck env r"
  then have all: "\<forall>a. act env a r = None" by (simp add: stuck_def)
  from all have "act env Main r = None" by (rule spec)
  then have "main_step r = None" by simp
  moreover have "\<forall>i. task_step env i r = None"
  proof
    fix i
    from all have "act env (Worker i) r = None" by (rule spec)
    then show "task_step env i r = None" by simp
  qed
  ultimately show "main_step r = None \<and>
      list_all (\<lambda>i. task_step env i r = None) [0..<length (tasks r)]"
    by (simp add: list_all_iff)
next
  assume a: "main_step r = None \<and>
      list_all (\<lambda>i. task_step env i r = None) [0..<length (tasks r)]"
  show "stuck env r"
    unfolding stuck_def
  proof
    fix b
    show "act env b r = None"
    proof (cases b)
      case Main
      with a show ?thesis by simp
    next
      case (Worker i)
      show ?thesis
      proof (cases "i < length (tasks r)")
        case True
        with a Worker show ?thesis by (simp add: list_all_iff)
      next
        case False
        with Worker show ?thesis by (simp add: task_step_def)
      qed
    qed
  qed
qed

lemma no_worker_start_eq:
  "no_worker_start =
     \<lparr>retrievers = [add_field ''access_advisor'' (VList [])],
      account_queue = \<lparr>items = [], unfinished = 0\<rparr>,
      arn_queue = \<lparr>items = [''r1''], unfinished = 1\<rparr>,
      results_queue = \<lparr>items = [], unfinished = 0\<rparr>,
      failure_queue = \<lparr>items = [], unfinished = 0\<rparr>,
      failed_arns = [], tasks = [], num_workers = 0,
      swag_config = example_config, persistence = [], phase = JoinAccounts,
      failures_logged = []\<rparr>"
  by (simp add: no_worker_start_def run_begin_def truthy_def list_of_def init_def
      register_retriever_def queue_arns_def q_put_def Queue_def launch_workers_def
      create_tasks_def)

lemma bare_start_eq:
  "bare_start =
     \<lparr>retrievers = [bare],
      account_queue = \<lparr>items = [], unfinished = 0\<rparr>,
      arn_queue = \<lparr>items = [''r1''], unfinished = 1\<rparr>,
      results_queue = \<lparr>items = [], unfinished = 0\<rparr>,
      failure_queue = \<lparr>items = [], unfinished = 0\<rparr>,
      failed_arns = [], tasks = [new_task Retriever 0, new_task Results 0], num_workers = 1,
      swag_config = example_config, persistence = [], phase = JoinAccounts,
      failures_logged = []\<rparr>"
  by (simp add: bare_start_def run_begin_def truthy_def list_of_def init_def
      register_retriever_def queue_arns_def q_put_def Queue_def launch_workers_def
      create_tasks_def pool_def [symmetric])

text \<open>
  C7, as the claim has it, fails where the workers cannot finish the queued items:
  \<^verbatim>\<open>run\<close> then neither raises nor returns. With a pool size of zero and one ARN given,
  \<^verbatim>\<open>run\<close> passes the \<^verbatim>\<open>join\<close> of the account queue and waits at the \<^verbatim>\<open>join\<close> of the
  ARN queue with nothing left that could take a step. With one worker per pool and a
  plugin that returns a record without \<^verbatim>\<open>arn\<close>, the results task ends with
  \<^verbatim>\<open>KeyError\<close> before \<^verbatim>\<open>task_done\<close>, and \<^verbatim>\<open>run\<close> waits at the \<^verbatim>\<open>join\<close> of the results
  queue in the same way.
\<close>

theorem run_can_wait_forever:
  "tasks no_worker_start = [] \<and>
   unfinished (arn_queue no_worker_start) = 1 \<and>
   exec example_env [Main] no_worker_start = Some (no_worker_start\<lparr>phase := JoinArns\<rparr>) \<and>
   stuck example_env (no_worker_start\<lparr>phase := JoinArns\<rparr>) \<and>
   map_option phase (exec example_env bare_schedule bare_start) = Some JoinResults \<and>
   map_option tasks (exec example_env bare_schedule bare_start)
     = Some [new_task Retriever 0, (new_task Results 0)\<lparr>status := Crashed (KeyError ''arn'')\<rparr>] \<and>
   map_option (stuck example_env) (exec example_env bare_schedule bare_start) = Some True"
proof -
  have a: "tasks no_worker_start = [] \<and> unfinished (arn_queue no_worker_start) = 1 \<and>
      exec example_env [Main] no_worker_start = Some (no_worker_start\<lparr>phase := JoinArns\<rparr>) \<and>
      stuck example_env (no_worker_start\<lparr>phase := JoinArns\<rparr>)"
    by (simp add: no_worker_start_eq stuck_iff main_step_def q_joined_def)
  have b: "map_option phase (exec example_env bare_schedule bare_start) = Some JoinResults \<and>
      map_option tasks (exec example_env bare_schedule bare_start)
        = Some [new_task Retriever 0, (new_task Results 0)\<lparr>status := Crashed (KeyError ''arn'')\<rparr>] \<and>
      map_option (stuck example_env) (exec example_env bare_schedule bare_start) = Some True"
    by (simp add: bare_start_eq bare_schedule_def bare_def stuck_iff main_step_def task_step_def
        q_joined_def new_task_def retriever_get_def retriever_resume_def results_get_def
        q_get_def q_put_def q_task_done_def set_status_def arn_done_def run_retrievers_def
        upt_rec)
  from a b show ?thesis by blast
qed

end
